theory Spec2Isabelle
  imports Complex_Main
begin

section \<open>Einstein summation over dense matrices (mat/einsum.go)\<close>

text \<open>
  The development embeds \<^verbatim>\<open>parseEinsum\<close>, \<^verbatim>\<open>einsumOps.String\<close>,
  \<^verbatim>\<open>einsumOps.dimOf\<close>, \<^verbatim>\<open>einsumOps.executor\<close>, \<^verbatim>\<open>einsumExecutor.increment\<close>,
  \<^verbatim>\<open>einsumExecutor.outputIdx\<close>, \<^verbatim>\<open>einsumExecutor.counterValFor\<close>,
  \<^verbatim>\<open>einsumOps.outputZeros\<close> and \<^verbatim>\<open>Einsum\<close>.

  Conventions.
  \<^item> A rune is a \<open>char\<close>: the subscript is read as its sequence of decoded runes, for
    code points below U+0100.
  \<^item> Go's \<^verbatim>\<open>int\<close> counters, extents and indices are \<open>nat\<close>: they start at zero, only
    grow, and stay far below \<open>2^63\<close> for any operand that fits in memory.
  \<^item> Every \<^verbatim>\<open>panic\<close> of the source, and every run-time panic of an out-of-range index,
    is a value of type \<open>error\<close>; a fallible function returns \<open>error + 'a\<close>.
  \<^item> The element type \<open>'a\<close> stands for \<^verbatim>\<open>float64\<close>. The definitions use only
    \<open>0\<close>, \<open>1\<close>, \<open>+\<close> and \<open>*\<close> of that type and assume no law about them, so
    that they can be run on the reals and on a model of \<^verbatim>\<open>float64\<close> alike.
  \<^item> Go does not fix the order in which \<^verbatim>\<open>range\<close> visits the keys of a map. The order
    that one call of \<^verbatim>\<open>executor\<close> happens to see is its argument \<open>ks\<close>; the
    predicate \<open>rangeOrder\<close> says that \<open>ks\<close> lists every key exactly once.
\<close>

subsection \<open>Data model\<close>

type_synonym rune = char

datatype error =
    UnexpectedCharAfterDash rune
  | UnexpectedNonLetter rune
  | CounterNotFound rune
  | Only2DSupported nat
  | DimMismatch nat nat nat
  | IndexOutOfRange

record einsumOps =
  seq :: "rune list"
  all :: "rune set"
  free :: "rune set"
  inputs :: "rune list list"
  outputs :: "rune list"

text \<open>
  The fields \<^verbatim>\<open>r\<close>, \<^verbatim>\<open>free\<close>, \<^verbatim>\<open>v\<close>, \<^verbatim>\<open>dim\<close> of \<^verbatim>\<open>einsumCounter\<close> and \<^verbatim>\<open>c\<close>,
  \<^verbatim>\<open>done\<close> of \<^verbatim>\<open>einsumExecutor\<close> carry a prefix, so that they do not capture variables.
\<close>

record einsumCounter =
  c_r :: rune
  c_free :: bool
  c_v :: nat
  c_dim :: nat

record einsumExecutor =
  e_c :: "einsumCounter list"
  e_done :: bool

text \<open>
  The \<^verbatim>\<open>Matrix\<close> interface, as far as \<^verbatim>\<open>Einsum\<close> uses it: \<^verbatim>\<open>Dims()\<close> and
  \<^verbatim>\<open>At(i, j)\<close>, which panics outside \<open>0 \<le> i < rows\<close>, \<open>0 \<le> j < cols\<close>.
\<close>

record 'a Matrix =
  nrows :: nat
  ncols :: nat
  elem :: "nat \<Rightarrow> nat \<Rightarrow> 'a"

definition Dims :: "'a Matrix \<Rightarrow> nat \<times> nat" where
  "Dims m = (nrows m, ncols m)"

definition At :: "'a Matrix \<Rightarrow> nat \<Rightarrow> nat \<Rightarrow> error + 'a" where
  "At m i j = (if i < nrows m \<and> j < ncols m then Inr (elem m i j) else Inl IndexOutOfRange)"

text \<open>\<^verbatim>\<open>NewDense(r, c, data)\<close>: row-major storage.\<close>

definition NewDense :: "nat \<Rightarrow> nat \<Rightarrow> 'a list \<Rightarrow> 'a Matrix" where
  "NewDense rs cs xs = \<lparr>nrows = rs, ncols = cs, elem = (\<lambda>i j. xs ! (i * cs + j))\<rparr>"

text \<open>\<^verbatim>\<open>NewVecDense(n, data)\<close>: a column vector, \<^verbatim>\<open>Dims()\<close> is \<open>(n, 1)\<close>.\<close>

definition NewVecDense :: "nat \<Rightarrow> 'a list \<Rightarrow> 'a Matrix" where
  "NewVecDense n xs = \<lparr>nrows = n, ncols = 1, elem = (\<lambda>i j. xs ! i)\<rparr>"

subsection \<open>The subscript parser\<close>

text \<open>\<^verbatim>\<open>unicode.IsSpace\<close> and \<^verbatim>\<open>unicode.IsLetter\<close> on the Latin-1 range.\<close>

definition isSpace :: "rune \<Rightarrow> bool" where
  "isSpace x = (let n = (of_char x :: nat) in
     (9 \<le> n \<and> n \<le> 13) \<or> n = 32 \<or> n = 133 \<or> n = 160)"

definition isLetter :: "rune \<Rightarrow> bool" where
  "isLetter x = (let n = (of_char x :: nat) in
     (65 \<le> n \<and> n \<le> 90) \<or> (97 \<le> n \<and> n \<le> 122) \<or> n = 170 \<or> n = 181 \<or> n = 186 \<or>
     (192 \<le> n \<and> n \<le> 214) \<or> (216 \<le> n \<and> n \<le> 246) \<or> (248 \<le> n \<and> n \<le> 255))"

datatype opsParseMode = opsParseModeNewInput | opsParseModeGrowInput | opsParseModeOutput

text \<open>\<^verbatim>\<open>einsumOps.last\<close>: the last rune stored in \<open>seq\<close>, rune 0 when there is none.\<close>

definition last_rune :: "einsumOps \<Rightarrow> rune" where
  "last_rune o' = (if seq o' = [] then CHR 0x00 else last (seq o'))"

text \<open>
  One turn of the \<^verbatim>\<open>for\<close> loop of \<^verbatim>\<open>parseEinsum\<close> on the rune \<open>x\<close>. A space
  \<^verbatim>\<open>continue\<close>s, so it is not appended to \<open>seq\<close>; every other rune is.
\<close>

definition parseRune :: "einsumOps \<Rightarrow> opsParseMode \<Rightarrow> rune \<Rightarrow> error + (einsumOps \<times> opsParseMode)" where
  "parseRune o' mode x =
     (if x = CHR '','' then Inr (o'\<lparr>seq := seq o' @ [x]\<rparr>, opsParseModeNewInput)
      else if x = CHR ''-'' then Inr (o'\<lparr>seq := seq o' @ [x]\<rparr>, mode)
      else if x = CHR ''>'' then
        (if last_rune o' \<noteq> CHR ''-'' then Inl (UnexpectedCharAfterDash x)
         else Inr (o'\<lparr>seq := seq o' @ [x]\<rparr>, opsParseModeOutput))
      else if isSpace x then Inr (o', mode)
      else if \<not> isLetter x then Inl (UnexpectedNonLetter x)
      else
        (let o1 = o'\<lparr>all := insert x (all o')\<rparr> in
         case mode of
           opsParseModeNewInput \<Rightarrow>
             Inr (o1\<lparr>inputs := inputs o1 @ [[x]], seq := seq o1 @ [x]\<rparr>, opsParseModeGrowInput)
         | opsParseModeGrowInput \<Rightarrow>
             (if inputs o1 = [] then Inl IndexOutOfRange
              else Inr (o1\<lparr>inputs := butlast (inputs o1) @ [last (inputs o1) @ [x]],
                            seq := seq o1 @ [x]\<rparr>, opsParseModeGrowInput))
         | opsParseModeOutput \<Rightarrow>
             Inr (o1\<lparr>free := insert x (free o1), outputs := outputs o1 @ [x],
                      seq := seq o1 @ [x]\<rparr>, opsParseModeOutput)))"

fun parseLoop :: "rune list \<Rightarrow> einsumOps \<Rightarrow> opsParseMode \<Rightarrow> error + einsumOps" where
  "parseLoop [] o' mode = Inr o'"
| "parseLoop (x # xs) o' mode =
     (case parseRune o' mode x of
        Inl e \<Rightarrow> Inl e
      | Inr (o1, mode1) \<Rightarrow> parseLoop xs o1 mode1)"

definition emptyOps :: einsumOps where
  "emptyOps = \<lparr>seq = [], all = {}, free = {}, inputs = [], outputs = []\<rparr>"

definition parseEinsum :: "string \<Rightarrow> error + einsumOps" where
  "parseEinsum subscripts = parseLoop subscripts emptyOps opsParseModeNewInput"

text \<open>
  \<^verbatim>\<open>einsumOps.String\<close>: the operand letter sequences, a comma after each but the last,
  then \<^verbatim>\<open>->\<close>, then the output letters.
\<close>

fun writeInputs :: "rune list list \<Rightarrow> string" where
  "writeInputs [] = []"
| "writeInputs [xs] = xs"
| "writeInputs (xs # ys # yss) = xs @ CHR '','' # writeInputs (ys # yss)"

definition String_ops :: "einsumOps \<Rightarrow> string" where
  "String_ops o' = writeInputs (inputs o') @ ''->'' @ outputs o'"

subsection \<open>Dimension resolution\<close>

text \<open>
  The inner loop of \<^verbatim>\<open>dimOf\<close>: the position of the first occurrence of the rune in
  one operand's letter sequence (\<open>None\<close> is the source's \<open>-1\<close>).
\<close>

fun matchOf :: "rune \<Rightarrow> rune list \<Rightarrow> nat option" where
  "matchOf x [] = None"
| "matchOf x (y # ys) = (if y = x then Some 0 else map_option Suc (matchOf x ys))"

text \<open>
  The \<^verbatim>\<open>switch match\<close> of \<^verbatim>\<open>dimOf\<close> for a match at position \<open>m\<close> in operand \<open>i\<close>:
  the row count, the column count, or the panic for a third index. \<^verbatim>\<open>operands[i]\<close>
  panics when there are fewer operands than letter sequences.
\<close>

definition extentAt :: "'a Matrix list \<Rightarrow> nat \<Rightarrow> nat \<Rightarrow> error + nat" where
  "extentAt operands i m =
     (if m = 0 then (if i < length operands then Inr (fst (Dims (operands ! i))) else Inl IndexOutOfRange)
      else if m = 1 then (if i < length operands then Inr (snd (Dims (operands ! i))) else Inl IndexOutOfRange)
      else Inl (Only2DSupported m))"

text \<open>
  The outer loop of \<^verbatim>\<open>dimOf\<close> over the letter sequences from index \<open>i\<close> on, with the
  extent found so far in \<open>d\<close> (0 is the source's "unset").
\<close>

fun dimOfLoop :: "rune \<Rightarrow> rune list list \<Rightarrow> nat \<Rightarrow> 'a Matrix list \<Rightarrow> nat \<Rightarrow> error + nat" where
  "dimOfLoop x [] i operands d = Inr d"
| "dimOfLoop x (inp # rest) i operands d =
     (case matchOf x inp of
        None \<Rightarrow> dimOfLoop x rest (i + 1) operands d
      | Some m \<Rightarrow>
          (case extentAt operands i m of
             Inl e \<Rightarrow> Inl e
           | Inr n \<Rightarrow>
               if d = 0 then dimOfLoop x rest (i + 1) operands n
               else if d \<noteq> n then Inl (DimMismatch d n i)
               else dimOfLoop x rest (i + 1) operands d))"

definition dimOf :: "einsumOps \<Rightarrow> rune \<Rightarrow> 'a Matrix list \<Rightarrow> error + nat" where
  "dimOf o' x operands = dimOfLoop x (inputs o') 0 operands 0"

subsection \<open>The counters\<close>

text \<open>The zero value of \<^verbatim>\<open>einsumCounter\<close>, which \<^verbatim>\<open>make\<close> fills the slice with.\<close>

definition zeroCounter :: einsumCounter where
  "zeroCounter = \<lparr>c_r = CHR 0x00, c_free = False, c_v = 0, c_dim = 0\<rparr>"

text \<open>First loop of \<^verbatim>\<open>executor\<close>: \<^verbatim>\<open>c.c[i]\<close> for the \<open>i\<close>-th output letter.\<close>

fun setFree :: "rune list \<Rightarrow> nat \<Rightarrow> einsumCounter list \<Rightarrow> error + einsumCounter list" where
  "setFree [] i cs = Inr cs"
| "setFree (x # xs) i cs =
     (if i < length cs
      then setFree xs (i + 1) (cs[i := \<lparr>c_r = x, c_free = True, c_v = 0, c_dim = 0\<rparr>])
      else Inl IndexOutOfRange)"

text \<open>
  Second loop of \<^verbatim>\<open>executor\<close>, over the keys of \<^verbatim>\<open>o.all\<close> in the order \<open>ks\<close> of
  this call; \<open>s\<close> counts the summation letters placed so far.
\<close>

fun setSummed :: "rune list \<Rightarrow> einsumOps \<Rightarrow> nat \<Rightarrow> einsumCounter list \<Rightarrow> error + einsumCounter list" where
  "setSummed [] o' s cs = Inr cs"
| "setSummed (x # xs) o' s cs =
     (if x \<in> free o' then setSummed xs o' s cs
      else if length (outputs o') + s < length cs
      then setSummed xs o' (s + 1)
             (cs[length (outputs o') + s := \<lparr>c_r = x, c_free = False, c_v = 0, c_dim = 0\<rparr>])
      else Inl IndexOutOfRange)"

text \<open>
  Third loop of \<^verbatim>\<open>executor\<close>: every counter gets its extent, and the extents of the
  free counters are collected, in order, as the output shape.
\<close>

fun setDims :: "einsumOps \<Rightarrow> 'a Matrix list \<Rightarrow> einsumCounter list \<Rightarrow> error + (einsumCounter list \<times> nat list)" where
  "setDims o' operands [] = Inr ([], [])"
| "setDims o' operands (ec # cs) =
     (case dimOf o' (c_r ec) operands of
        Inl e \<Rightarrow> Inl e
      | Inr d \<Rightarrow>
          (case setDims o' operands cs of
             Inl e \<Rightarrow> Inl e
           | Inr (cs', outputDim) \<Rightarrow>
               Inr (ec\<lparr>c_dim := d\<rparr> # cs', if c_free ec then d # outputDim else outputDim)))"

definition rangeOrder :: "einsumOps \<Rightarrow> rune list \<Rightarrow> bool" where
  "rangeOrder o' ks = (distinct ks \<and> set ks = all o')"

definition executor :: "einsumOps \<Rightarrow> 'a Matrix list \<Rightarrow> rune list \<Rightarrow> error + (einsumExecutor \<times> nat list)" where
  "executor o' operands ks =
     (case setFree (outputs o') 0 (replicate (card (all o')) zeroCounter) of
        Inl e \<Rightarrow> Inl e
      | Inr c1 \<Rightarrow>
          (case setSummed ks o' 0 c1 of
             Inl e \<Rightarrow> Inl e
           | Inr c2 \<Rightarrow>
               (case setDims o' operands c2 of
                  Inl e \<Rightarrow> Inl e
                | Inr (c3, outputDim) \<Rightarrow> Inr (\<lparr>e_c = c3, e_done = False\<rparr>, outputDim))))"

text \<open>
  \<^verbatim>\<open>increment\<close>: the loop over \<open>i\<close>, looking at the counter \<open>idx = len - (i + 1)\<close>.
\<close>

function incrementLoop :: "nat \<Rightarrow> einsumExecutor \<Rightarrow> einsumExecutor" where
  "incrementLoop i e =
     (if i < length (e_c e) then
        (let idx = length (e_c e) - (i + 1) in
         if c_v (e_c e ! idx) + 1 < c_dim (e_c e ! idx)
         then e\<lparr>e_c := (e_c e)[idx := (e_c e ! idx)\<lparr>c_v := c_v (e_c e ! idx) + 1\<rparr>]\<rparr>
         else if idx = 0 then e\<lparr>e_done := True\<rparr>
         else incrementLoop (i + 1) (e\<lparr>e_c := (e_c e)[idx := (e_c e ! idx)\<lparr>c_v := 0\<rparr>]\<rparr>))
      else e)"
  by pat_completeness auto
termination
  by (relation "measure (\<lambda>(i, e). length (e_c e) - i)") auto

definition increment :: "einsumExecutor \<Rightarrow> einsumExecutor" where
  "increment e = incrementLoop 0 e"

text \<open>
  \<^verbatim>\<open>outputIdx\<close>: the counters from the last to the first, with the index so far and
  the jump size.
\<close>

fun outputIdxLoop :: "einsumCounter list \<Rightarrow> nat \<Rightarrow> nat \<Rightarrow> nat" where
  "outputIdxLoop [] idx jumpSize = idx"
| "outputIdxLoop (ec # cs) idx jumpSize =
     (if \<not> c_free ec then outputIdxLoop cs idx jumpSize
      else outputIdxLoop cs (idx + c_v ec * jumpSize) (jumpSize * c_dim ec))"

definition outputIdx :: "einsumExecutor \<Rightarrow> nat" where
  "outputIdx e = outputIdxLoop (rev (e_c e)) 0 1"

fun counterValLoop :: "einsumCounter list \<Rightarrow> rune \<Rightarrow> error + nat" where
  "counterValLoop [] x = Inl (CounterNotFound x)"
| "counterValLoop (ec # cs) x = (if c_r ec = x then Inr (c_v ec) else counterValLoop cs x)"

definition counterValFor :: "einsumExecutor \<Rightarrow> rune \<Rightarrow> error + nat" where
  "counterValFor e x = counterValLoop (e_c e) x"

subsection \<open>The evaluator\<close>

definition outputZeros :: "nat list \<Rightarrow> 'a::zero list" where
  "outputZeros ds = replicate (foldl (\<lambda>total d. total * d) 1 ds) 0"

text \<open>The \<^verbatim>\<open>indexes\<close> of one operand: the counter values of its letters.\<close>

fun indexesOf :: "einsumExecutor \<Rightarrow> rune list \<Rightarrow> error + nat list" where
  "indexesOf e [] = Inr []"
| "indexesOf e (x # xs) =
     (case counterValFor e x of
        Inl err \<Rightarrow> Inl err
      | Inr n \<Rightarrow> (case indexesOf e xs of Inl err \<Rightarrow> Inl err | Inr ns \<Rightarrow> Inr (n # ns)))"

text \<open>
  The element of one operand at \<open>indexes\<close>: \<^verbatim>\<open>At(indexes[0], 0)\<close> for one index,
  \<^verbatim>\<open>At(indexes[0], indexes[1])\<close> otherwise.
\<close>

definition operandAt :: "'a Matrix \<Rightarrow> nat list \<Rightarrow> error + 'a" where
  "operandAt m indexes =
     (if length indexes = 1 then At m (indexes ! 0) 0
      else if 2 \<le> length indexes then At m (indexes ! 0) (indexes ! 1)
      else Inl IndexOutOfRange)"

text \<open>
  The loop over the operands from index \<open>i\<close> on, multiplying into \<open>cur\<close>.
  \<^verbatim>\<open>ops.inputs[i]\<close> panics when there are more operands than letter sequences.
\<close>

fun operandLoop :: "einsumOps \<Rightarrow> einsumExecutor \<Rightarrow> 'a::times Matrix list \<Rightarrow> nat \<Rightarrow> 'a \<Rightarrow> error + 'a" where
  "operandLoop o' e [] i cur = Inr cur"
| "operandLoop o' e (m # ms) i cur =
     (if \<not> i < length (inputs o') then Inl IndexOutOfRange
      else
        (case indexesOf e (inputs o' ! i) of
           Inl err \<Rightarrow> Inl err
         | Inr indexes \<Rightarrow>
             (case operandAt m indexes of
                Inl err \<Rightarrow> Inl err
              | Inr a \<Rightarrow> operandLoop o' e ms (i + 1) (cur * a))))"

text \<open>The body of the drive loop: one product, added to its output cell.\<close>

definition body :: "einsumOps \<Rightarrow> 'a::{one,plus,times} Matrix list \<Rightarrow> einsumExecutor \<Rightarrow> 'a list \<Rightarrow> error + 'a list" where
  "body o' operands e out =
     (case operandLoop o' e operands 0 1 of
        Inl err \<Rightarrow> Inl err
      | Inr cur \<Rightarrow>
          if outputIdx e < length out
          then Inr (out[outputIdx e := out ! outputIdx e + cur])
          else Inl IndexOutOfRange)"

text \<open>
  The drive loop \<^verbatim>\<open>for ; !exc.done; exc.increment()\<close>. It need not end; \<open>None\<close> is
  the loop that never returns.
\<close>

partial_function (option) drive ::
  "einsumOps \<Rightarrow> 'a::{one,plus,times} Matrix list \<Rightarrow> einsumExecutor \<Rightarrow> 'a list \<Rightarrow> (error + 'a list) option" where
  "drive o' operands e out =
     (if e_done e then Some (Inr out)
      else
        (case body o' operands e out of
           Inl err \<Rightarrow> Some (Inl err)
         | Inr out' \<Rightarrow> drive o' operands (increment e) out'))"

definition Einsum ::
  "string \<Rightarrow> 'a::{zero,one,plus,times} Matrix list \<Rightarrow> rune list \<Rightarrow> (error + (nat list \<times> 'a list)) option" where
  "Einsum subscripts operands ks =
     (case parseEinsum subscripts of
        Inl err \<Rightarrow> Some (Inl err)
      | Inr ops \<Rightarrow>
          (case executor ops operands ks of
             Inl err \<Rightarrow> Some (Inl err)
           | Inr (exc, ds) \<Rightarrow>
               (case drive ops operands exc (outputZeros ds) of
                  None \<Rightarrow> None
                | Some (Inl err) \<Rightarrow> Some (Inl err)
                | Some (Inr out) \<Rightarrow> Some (Inr (ds, out)))))"

subsection \<open>Notions used to state and prove the properties\<close>

text \<open>
  \<open>steps k e\<close> is the executor after \<open>k\<close> calls of \<^verbatim>\<open>increment\<close>; \<open>zeroState cs\<close> is
  the executor that \<^verbatim>\<open>executor\<close> returns for the counters \<open>cs\<close> (not done);
  \<open>visited cs k\<close> is the combination of counter values that the \<open>k\<close>-th turn of the
  drive loop sees.
\<close>

definition steps :: "nat \<Rightarrow> einsumExecutor \<Rightarrow> einsumExecutor" where
  "steps k e = (increment ^^ k) e"

definition zeroState :: "einsumCounter list \<Rightarrow> einsumExecutor" where
  "zeroState cs = \<lparr>e_c = cs, e_done = False\<rparr>"

definition visited :: "einsumCounter list \<Rightarrow> nat \<Rightarrow> nat list" where
  "visited cs k = map c_v (e_c (steps k (zeroState cs)))"

text \<open>
  The loop of \<^verbatim>\<open>increment\<close> once more, by recursion on the counters listed from the
  last to the first: the new counters, and whether \<^verbatim>\<open>done\<close> was set.
\<close>

fun incRev :: "einsumCounter list \<Rightarrow> einsumCounter list \<times> bool" where
  "incRev [] = ([], False)"
| "incRev (x # xs) =
     (if c_v x + 1 < c_dim x then (x\<lparr>c_v := c_v x + 1\<rparr> # xs, False)
      else if xs = [] then ([x], True)
      else (x\<lparr>c_v := 0\<rparr> # fst (incRev xs), snd (incRev xs)))"

text \<open>
  A counter of extent 0 carries at once, like one of extent 1: \<open>ext\<close> is the number of
  values a counter takes. \<open>rval\<close> reads the counters, last one first, as a mixed-radix
  number; \<open>mrv\<close> does so for plain lists of extents and digits.
\<close>

definition ext :: "einsumCounter \<Rightarrow> nat" where
  "ext x = max 1 (c_dim x)"

fun rval :: "einsumCounter list \<Rightarrow> nat" where
  "rval [] = 0"
| "rval (x # xs) = c_v x + ext x * rval xs"

definition rvalid :: "einsumCounter list \<Rightarrow> bool" where
  "rvalid xs = (\<forall>x\<in>set xs. c_v x < ext x)"

definition rprod :: "einsumCounter list \<Rightarrow> nat" where
  "rprod xs = prod_list (map ext xs)"

fun mrv :: "nat list \<Rightarrow> nat list \<Rightarrow> nat" where
  "mrv (d # ds) (n # ns) = n + d * mrv ds ns"
| "mrv ds ns = 0"

text \<open>
  What \<^verbatim>\<open>parseEinsum\<close> maintains: the free letters are the output letters, the letter
  map holds the letters of the operand sequences and of the output, and no operand
  sequence is empty.
\<close>

definition opsInv :: "einsumOps \<Rightarrow> bool" where
  "opsInv o' = (free o' = set (outputs o')
      \<and> all o' = \<Union>(set ` set (inputs o')) \<union> set (outputs o')
      \<and> [] \<notin> set (inputs o'))"

text \<open>
  The counters that the first two loops of \<^verbatim>\<open>executor\<close> write, and the extent that
  \<^verbatim>\<open>dimOf\<close> resolves for a letter (0 where it panics).
\<close>

definition freeCounter :: "rune \<Rightarrow> einsumCounter" where
  "freeCounter x = \<lparr>c_r = x, c_free = True, c_v = 0, c_dim = 0\<rparr>"

definition summedCounter :: "rune \<Rightarrow> einsumCounter" where
  "summedCounter x = \<lparr>c_r = x, c_free = False, c_v = 0, c_dim = 0\<rparr>"

definition extentOf :: "einsumOps \<Rightarrow> 'a Matrix list \<Rightarrow> rune \<Rightarrow> nat" where
  "extentOf o' operands x = (case dimOf o' x operands of Inl err \<Rightarrow> 0 | Inr d \<Rightarrow> d)"

text \<open>
  The sum that a subscript without output letters denotes, written without the
  odometer. \<open>valuation ks ns\<close> assigns to the letters \<open>ks\<close> the values \<open>ns\<close>;
  \<open>elemAt\<close> is the element of an operand at the indices of its letters (column 0 for a
  single letter); \<open>termAt\<close> is the product over the operands, from the seed 1, in the
  order of the operands; \<open>fullSum\<close> adds the products, from 0, over all index
  combinations in the order of \<open>product_lists\<close> (the last letter of \<open>ks\<close> runs
  fastest).
\<close>

definition valuation :: "rune list \<Rightarrow> nat list \<Rightarrow> rune \<Rightarrow> nat" where
  "valuation ks ns x = (case map_of (zip ks ns) x of None \<Rightarrow> 0 | Some n \<Rightarrow> n)"

definition elemAt :: "'a Matrix \<Rightarrow> nat list \<Rightarrow> 'a" where
  "elemAt m indexes =
     (if length indexes = 1 then elem m (indexes ! 0) 0 else elem m (indexes ! 0) (indexes ! 1))"

definition termAt :: "einsumOps \<Rightarrow> 'a::{one,times} Matrix list \<Rightarrow> (rune \<Rightarrow> nat) \<Rightarrow> 'a" where
  "termAt o' operands env =
     foldl (\<lambda>cur (m, inp). cur * elemAt m (map env inp)) 1 (zip operands (inputs o'))"

definition fullSum :: "einsumOps \<Rightarrow> 'a::{zero,one,plus,times} Matrix list \<Rightarrow> rune list \<Rightarrow> 'a" where
  "fullSum o' operands ks =
     foldl (\<lambda>acc ns. acc + termAt o' operands (valuation ks ns)) 0
       (product_lists (map (\<lambda>x. [0..<extentOf o' operands x]) ks))"

text \<open>
  \<open>envOf e\<close> is the counter value of a letter in the executor \<open>e\<close>, and
  \<open>accumulate\<close> runs the body of the drive loop over a list of executor states.
\<close>

definition envOf :: "einsumExecutor \<Rightarrow> rune \<Rightarrow> nat" where
  "envOf e x = (case counterValFor e x of Inl err \<Rightarrow> 0 | Inr n \<Rightarrow> n)"

fun accumulate :: "einsumOps \<Rightarrow> 'a::{one,plus,times} Matrix list \<Rightarrow> einsumExecutor list \<Rightarrow> 'a list \<Rightarrow> error + 'a list" where
  "accumulate o' operands [] out = Inr out"
| "accumulate o' operands (e # es) out =
     (case body o' operands e out of
        Inl err \<Rightarrow> Inl err
      | Inr out' \<Rightarrow> accumulate o' operands es out')"

subsection \<open>The arithmetic of \<^verbatim>\<open>float64\<close> on whole numbers\<close>

text \<open>
  The definitions above leave the element type open. To run them on \<^verbatim>\<open>float64\<close>
  values, \<open>float64\<close> is the type of the IEEE 754 binary64 numbers that are whole
  numbers, each given by its value. Sum and product are the exact result rounded to 53
  significant bits, to nearest and ties to even (\<open>round53\<close>); no overflow arises below
  \<open>2^1024\<close>. \<open>bitLength n\<close> is the number of binary digits of \<open>n\<close>.
\<close>

function bitLength :: "int \<Rightarrow> nat" where
  "bitLength n = (if n \<le> 0 then 0 else Suc (bitLength (n div 2)))"
  by pat_completeness auto
termination
  by (relation "measure nat") auto

definition round53 :: "int \<Rightarrow> int" where
  "round53 a =
     (let n = \<bar>a\<bar> in
      if n < 2 ^ 53 then a
      else
        (let u = 2 ^ (bitLength n - 53); q = n div u; m = n mod u;
             q' = (if 2 * m < u then q else if u < 2 * m then q + 1
                   else if even q then q else q + 1)
         in sgn a * (q' * u)))"

datatype float64 = F64 (intOf: int)

instantiation float64 :: "{zero,one,plus,times}"
begin

definition zero_float64 :: float64 where
  "zero_float64 = F64 0"

definition one_float64 :: float64 where
  "one_float64 = F64 1"

definition plus_float64 :: "float64 \<Rightarrow> float64 \<Rightarrow> float64" where
  "plus_float64 a b = F64 (round53 (intOf a + intOf b))"

definition times_float64 :: "float64 \<Rightarrow> float64 \<Rightarrow> float64" where
  "times_float64 a b = F64 (round53 (intOf a * intOf b))"

instance ..

end

declare drive.simps [code]

declare bitLength.simps [simp del]

declare incrementLoop.simps [simp del]

section \<open>Properties\<close>

subsection \<open>The order of the summation letters\<close>

text \<open>Only the summation letters of \<open>ks\<close> reach the counters.\<close>

lemma setSummed_filter:
  "setSummed ks o' s cs = setSummed (filter (\<lambda>x. x \<notin> free o') ks) o' s cs"
  by (induction ks arbitrary: s cs) auto

lemma executor_filter:
  "executor o' operands ks = executor o' operands (filter (\<lambda>x. x \<notin> free o') ks)"
  unfolding executor_def by (subst setSummed_filter) (rule refl)

lemma Einsum_filter:
  assumes "parseEinsum s = Inr ops"
  shows "Einsum s operands ks = Einsum s operands (filter (\<lambda>x. x \<notin> free ops) ks)"
  unfolding Einsum_def assms by (subst executor_filter) simp

lemma filter_single:
  assumes "distinct ks" and "{x \<in> set ks. P x} = {a}"
  shows "filter P ks = [a]"
proof -
  have d: "distinct (filter P ks)" using assms(1) by simp
  have s: "set (filter P ks) = {a}" using assms(2) by auto
  obtain y ys where e: "filter P ks = y # ys" using s by (cases "filter P ks") auto
  have "ys = []"
  proof (cases ys)
    case (Cons z zs)
    then have "z \<in> {a}" "y \<in> {a}" "z \<noteq> y" using s d e by auto
    then show ?thesis by simp
  qed simp
  with s e show ?thesis by auto
qed

subsection \<open>Matrix multiplication\<close>

lemma parse_matmul:
  "parseEinsum ''ik,kj->ij'' =
     Inr \<lparr>seq = ''ik,kj->ij'', all = {CHR ''i'', CHR ''k'', CHR ''j''},
          free = {CHR ''i'', CHR ''j''}, inputs = [''ik'', ''kj''], outputs = ''ij''\<rparr>"
  by (auto simp: parseEinsum_def emptyOps_def parseRune_def last_rune_def isSpace_def isLetter_def)

lemma Einsum_matmul_k:
  "Einsum ''ik,kj->ij'' [NewDense 2 2 [1, 0, 1, 1], NewDense 2 2 [2, 3, 4, 5 :: real]] ''k''
     = Some (Inr ([2, 2], [2, 3, 6, 8]))"
  by code_simp

lemma Einsum_matmul_k_float64:
  "Einsum ''ik,kj->ij''
     [NewDense 2 2 [F64 1, F64 0, F64 1, F64 1], NewDense 2 2 [F64 2, F64 3, F64 4, F64 5]] ''k''
     = Some (Inr ([2, 2], [F64 2, F64 3, F64 6, F64 8]))"
  by code_simp

text \<open>
  Claim C1. The subscript \<^verbatim>\<open>ik,kj->ij\<close> on the 2x2 operands \<open>[[1,0],[1,1]]\<close> and
  \<open>[[2,3],[4,5]]\<close> returns the shape \<open>[2,2]\<close> and the flattened values \<open>[2,3,6,8]\<close>,
  in whatever order the run time enumerates the keys of the letter map. This holds for
  the elements taken as real numbers and for the elements taken as \<^verbatim>\<open>float64\<close> values.
\<close>

theorem Einsum_matmul:
  assumes "parseEinsum ''ik,kj->ij'' = Inr ops" and "rangeOrder ops ks"
  shows "Einsum ''ik,kj->ij'' [NewDense 2 2 [1, 0, 1, 1], NewDense 2 2 [2, 3, 4, 5 :: real]] ks
           = Some (Inr ([2, 2], [2, 3, 6, 8]))
       \<and> Einsum ''ik,kj->ij''
           [NewDense 2 2 [F64 1, F64 0, F64 1, F64 1], NewDense 2 2 [F64 2, F64 3, F64 4, F64 5]] ks
           = Some (Inr ([2, 2], [F64 2, F64 3, F64 6, F64 8]))"
proof -
  have ops: "ops = \<lparr>seq = ''ik,kj->ij'', all = {CHR ''i'', CHR ''k'', CHR ''j''},
          free = {CHR ''i'', CHR ''j''}, inputs = [''ik'', ''kj''], outputs = ''ij''\<rparr>"
    using assms(1) by (simp add: parse_matmul)
  have d: "distinct ks" and s: "set ks = {CHR ''i'', CHR ''k'', CHR ''j''}"
    using assms(2) by (simp_all add: rangeOrder_def ops)
  have "{x \<in> set ks. x \<notin> free ops} = {CHR ''k''}"
    by (auto simp: s ops)
  then have f: "filter (\<lambda>x. x \<notin> free ops) ks = ''k''"
    using d by (rule filter_single [rotated])
  have "Einsum ''ik,kj->ij'' [NewDense 2 2 [1, 0, 1, 1], NewDense 2 2 [2, 3, 4, 5 :: real]] ks
           = Some (Inr ([2, 2], [2, 3, 6, 8]))"
    by (subst Einsum_filter [OF assms(1)]) (simp only: f Einsum_matmul_k)
  moreover have "Einsum ''ik,kj->ij''
           [NewDense 2 2 [F64 1, F64 0, F64 1, F64 1], NewDense 2 2 [F64 2, F64 3, F64 4, F64 5]] ks
           = Some (Inr ([2, 2], [F64 2, F64 3, F64 6, F64 8]))"
    by (subst Einsum_filter [OF assms(1)]) (simp only: f Einsum_matmul_k_float64)
  ultimately show ?thesis by (rule conjI)
qed

theorem Einsum_matmul_witness:
  "rangeOrder \<lparr>seq = ''ik,kj->ij'', all = {CHR ''i'', CHR ''k'', CHR ''j''},
          free = {CHR ''i'', CHR ''j''}, inputs = [''ik'', ''kj''], outputs = ''ij''\<rparr> ''ikj''
   \<and> Einsum ''ik,kj->ij'' [NewDense 2 2 [1, 0, 1, 1], NewDense 2 2 [2, 3, 4, 5 :: real]] ''ikj''
       = Some (Inr ([2, 2], [2, 3, 6, 8]))
   \<and> Einsum ''ik,kj->ij''
       [NewDense 2 2 [F64 1, F64 0, F64 1, F64 1], NewDense 2 2 [F64 2, F64 3, F64 4, F64 5]] ''ikj''
       = Some (Inr ([2, 2], [F64 2, F64 3, F64 6, F64 8]))"
proof -
  have r: "rangeOrder \<lparr>seq = ''ik,kj->ij'', all = {CHR ''i'', CHR ''k'', CHR ''j''},
          free = {CHR ''i'', CHR ''j''}, inputs = [''ik'', ''kj''], outputs = ''ij''\<rparr> ''ikj''"
    by (simp add: rangeOrder_def)
  show ?thesis
    using r Einsum_matmul [OF parse_matmul r] by simp
qed

subsection \<open>The odometer\<close>

lemma length_incRev [simp]: "length (fst (incRev xs)) = length xs"
  by (induction xs) auto

lemma incrementLoop_incRev:
  "rev (e_c e) = ys @ xs \<Longrightarrow> length ys = i \<Longrightarrow>
   incrementLoop i e = e\<lparr>e_c := rev (ys @ fst (incRev xs)), e_done := e_done e \<or> snd (incRev xs)\<rparr>"
proof (induction xs arbitrary: i e ys)
  case Nil
  have ec: "e_c e = rev ys"
    using arg_cong [OF Nil(1), of rev] by simp
  then show ?case using Nil(2)
    by (subst incrementLoop.simps) simp
next
  case (Cons x xs)
  have ec: "e_c e = rev xs @ x # rev ys"
    using arg_cong [OF Cons.prems(1), of rev] by simp
  have len: "length (e_c e) = length xs + 1 + i"
    using ec Cons.prems(2) by simp
  have idx: "length (e_c e) - (i + 1) = length xs"
    using len by simp
  have nth: "e_c e ! length xs = x"
    by (simp add: ec nth_append)
  show ?case
  proof (cases "c_v x + 1 < c_dim x")
    case True
    then show ?thesis
      using len idx nth
      by (subst incrementLoop.simps) (simp add: ec list_update_append)
  next
    case False
    show ?thesis
    proof (cases "xs = []")
      case True
      then show ?thesis
        using False len idx nth
        by (subst incrementLoop.simps) (simp add: ec)
    next
      case nonempty: False
      let ?e = "e\<lparr>e_c := (e_c e)[length xs := x\<lparr>c_v := 0\<rparr>]\<rparr>"
      have "rev (e_c ?e) = (ys @ [x\<lparr>c_v := 0\<rparr>]) @ xs"
        by (simp add: ec list_update_append)
      then have "incrementLoop (i + 1) ?e =
        ?e\<lparr>e_c := rev ((ys @ [x\<lparr>c_v := 0\<rparr>]) @ fst (incRev xs)), e_done := e_done ?e \<or> snd (incRev xs)\<rparr>"
        by (rule Cons.IH) (simp add: Cons.prems(2))
      then show ?thesis
        using False nonempty len idx nth
        by (subst incrementLoop.simps) (simp add: Let_def)
    qed
  qed
qed

lemma increment_incRev:
  "increment e = e\<lparr>e_c := rev (fst (incRev (rev (e_c e)))), e_done := e_done e \<or> snd (incRev (rev (e_c e)))\<rparr>"
  unfolding increment_def by (subst incrementLoop_incRev [where ys = "[]" and xs = "rev (e_c e)"]) simp_all

lemma rvalid_Cons [simp]: "rvalid (x # xs) = (c_v x < ext x \<and> rvalid xs)"
  by (simp add: rvalid_def)

lemma rvalid_Nil [simp]: "rvalid []"
  by (simp add: rvalid_def)

lemma rprod_Cons [simp]: "rprod (x # xs) = ext x * rprod xs"
  by (simp add: rprod_def)

lemma rprod_Nil [simp]: "rprod [] = 1"
  by (simp add: rprod_def)

lemma ext_pos [simp]: "0 < ext x"
  by (simp add: ext_def)

lemma ext_nonzero [simp]: "ext x \<noteq> 0" "(ext x = 0) = False"
  by (simp_all add: ext_def)

lemma step_iff_ext: "(Suc (c_v x) < c_dim x) = (Suc (c_v x) < ext x)"
  by (auto simp: ext_def)

lemma ext_update [simp]: "ext (x\<lparr>c_v := n\<rparr>) = ext x"
  by (simp add: ext_def)

lemma rval_less_rprod: "rvalid xs \<Longrightarrow> rval xs < rprod xs"
proof (induction xs)
  case Nil
  show ?case by simp
next
  case (Cons x xs)
  then have v: "c_v x < ext x" and r: "rval xs < rprod xs" by simp_all
  have "c_v x + ext x * rval xs < ext x + ext x * rval xs" using v by simp
  also have "\<dots> = ext x * (rval xs + 1)" by simp
  also have "\<dots> \<le> ext x * rprod xs" using r by (intro mult_le_mono2) simp
  finally show ?case by simp
qed

lemma incRev_keeps:
  "map c_dim (fst (incRev xs)) = map c_dim xs"
  "map c_r (fst (incRev xs)) = map c_r xs"
  "map c_free (fst (incRev xs)) = map c_free xs"
  by (induction xs) auto

lemma incRev_ext: "map ext (fst (incRev xs)) = map ext xs"
  by (induction xs) auto

lemma incRev_rprod [simp]: "rprod (fst (incRev xs)) = rprod xs"
  by (simp add: rprod_def incRev_ext)

lemma incRev_done_iff:
  "rvalid xs \<Longrightarrow> xs \<noteq> [] \<Longrightarrow> snd (incRev xs) = (rval xs + 1 = rprod xs)"
proof (induction xs)
  case Nil
  then show ?case by simp
next
  case (Cons x xs)
  then have v: "c_v x < ext x" and val: "rvalid xs" by simp_all
  show ?case
  proof (cases "c_v x + 1 < c_dim x")
    case True
    then have lt: "c_v x + 1 < ext x" by (simp add: step_iff_ext)
    have "rval xs < rprod xs" using val by (rule rval_less_rprod)
    then have "ext x * (rval xs + 1) \<le> ext x * rprod xs" by (intro mult_le_mono2) simp
    then have "c_v x + ext x * rval xs + 1 < ext x * rprod xs" using lt by simp
    then show ?thesis using True by simp
  next
    case False
    then have eq: "c_v x + 1 = ext x" using v by (simp add: step_iff_ext)
    show ?thesis
    proof (cases "xs = []")
      case True
      then show ?thesis using False eq by simp
    next
      case ne: False
      have ih: "snd (incRev xs) = (rval xs + 1 = rprod xs)" using Cons.IH val ne by simp
      have "c_v x + ext x * rval xs + 1 = (c_v x + 1) + ext x * rval xs" by simp
      also have "\<dots> = ext x + ext x * rval xs" by (simp only: eq)
      also have "\<dots> = ext x * (rval xs + 1)" by simp
      finally have "(c_v x + ext x * rval xs + 1 = ext x * rprod xs) = (ext x * (rval xs + 1) = ext x * rprod xs)"
        by (simp only:)
      also have "\<dots> = (rval xs + 1 = rprod xs)"
        by (simp only: mult_cancel1 ext_nonzero simp_thms)
      finally show ?thesis using False ne ih by simp
    qed
  qed
qed

lemma incRev_step:
  "rvalid xs \<Longrightarrow> \<not> snd (incRev xs) \<Longrightarrow> xs \<noteq> [] \<Longrightarrow>
   rvalid (fst (incRev xs)) \<and> rval (fst (incRev xs)) = rval xs + 1"
proof (induction xs)
  case Nil
  then show ?case by simp
next
  case (Cons x xs)
  then have v: "c_v x < ext x" and val: "rvalid xs" by simp_all
  show ?case
  proof (cases "c_v x + 1 < c_dim x")
    case True
    then have "Suc (c_v x) < ext x" by (simp add: step_iff_ext)
    then show ?thesis using True val by simp
  next
    case False
    then have eq: "c_v x + 1 = ext x" using v by (simp add: step_iff_ext)
    have ne: "xs \<noteq> []" using Cons.prems(2) False by auto
    have nd: "\<not> snd (incRev xs)" using Cons.prems(2) False ne by simp
    have ih: "rvalid (fst (incRev xs))" "rval (fst (incRev xs)) = rval xs + 1"
      using Cons.IH [OF val nd ne] by simp_all
    show ?thesis using False ne ih eq by simp
  qed
qed

lemma rval_mrv: "rval xs = mrv (map ext xs) (map c_v xs)"
  by (induction xs) simp_all

lemma rvalid_all2: "rvalid xs = list_all2 (<) (map c_v xs) (map ext xs)"
  by (induction xs) simp_all

lemma mrv_split:
  assumes "a < d" and "b < d" and "a + d * p = b + d * (q::nat)"
  shows "a = b \<and> p = q"
proof -
  have "(a + d * p) mod d = (b + d * q) mod d" by (simp only: assms(3))
  then have ab: "a = b" using assms(1,2) by simp
  then have "d * p = d * q" using assms(3) by simp
  then show ?thesis using ab assms(1) by simp
qed

lemma mrv_inj:
  "list_all2 (<) ns ds \<Longrightarrow> list_all2 (<) ms ds \<Longrightarrow> mrv ds ns = mrv ds ms \<Longrightarrow> ns = ms"
proof (induction ds arbitrary: ns ms)
  case Nil
  then show ?case by simp
next
  case (Cons d ds)
  from Cons.prems(1) obtain a ns' where ns: "ns = a # ns'" "a < d" "list_all2 (<) ns' ds"
    by (auto simp: list_all2_Cons2)
  from Cons.prems(2) obtain b ms' where ms: "ms = b # ms'" "b < d" "list_all2 (<) ms' ds"
    by (auto simp: list_all2_Cons2)
  have "a + d * mrv ds ns' = b + d * mrv ds ms'" using Cons.prems(3) ns ms by simp
  then have "a = b \<and> mrv ds ns' = mrv ds ms'" using ns(2) ms(2) by (intro mrv_split)
  then show ?case using Cons.IH [OF ns(3) ms(3)] ns ms by simp
qed

lemma mrv_less_cases:
  assumes "a < d" and "b < d" and "a + d * p < b + d * (q::nat)"
  shows "p < q \<or> (p = q \<and> a < b)"
proof (rule ccontr)
  assume "\<not> (p < q \<or> (p = q \<and> a < b))"
  then consider "q < p" | "p = q" "b \<le> a" by force
  then show False
  proof cases
    case 1
    then have "d * (q + 1) \<le> d * p" by (intro mult_le_mono2) simp
    then show False using assms by simp
  next
    case 2
    then show False using assms by simp
  qed
qed

lemma mrv_lex:
  "list_all2 (<) ns ds \<Longrightarrow> list_all2 (<) ms ds \<Longrightarrow> mrv ds ns < mrv ds ms \<Longrightarrow>
   (rev ns, rev ms) \<in> lexord {(a, b). a < b}"
proof (induction ds arbitrary: ns ms)
  case Nil
  then show ?case by simp
next
  case (Cons d ds)
  from Cons.prems(1) obtain a ns' where ns: "ns = a # ns'" "a < d" "list_all2 (<) ns' ds"
    by (auto simp: list_all2_Cons2)
  from Cons.prems(2) obtain b ms' where ms: "ms = b # ms'" "b < d" "list_all2 (<) ms' ds"
    by (auto simp: list_all2_Cons2)
  have len: "length ns' = length ms'"
    using ns(3) ms(3) by (simp add: list_all2_lengthD)
  have "a + d * mrv ds ns' < b + d * mrv ds ms'" using Cons.prems(3) ns ms by simp
  then consider "mrv ds ns' < mrv ds ms'" | "mrv ds ns' = mrv ds ms'" "a < b"
    using mrv_less_cases [OF ns(2) ms(2)] by blast
  then show ?case
  proof cases
    case 1
    then have "(rev ns', rev ms') \<in> lexord {(a, b). a < b}"
      using Cons.IH [OF ns(3) ms(3)] by simp
    then have "(rev ns' @ [a], rev ms' @ [b]) \<in> lexord {(a, b). a < b}"
      by (rule lexord_sufI) (simp add: len)
    then show ?thesis by (simp add: ns ms)
  next
    case 2
    then have "ns' = ms'" using mrv_inj [OF ns(3) ms(3)] by simp
    then show ?thesis using 2(2) by (simp add: ns ms lexord_append_leftI)
  qed
qed

lemma mrv_less_prod: "list_all2 (<) ns ds \<Longrightarrow> mrv ds ns < prod_list ds"
proof (induction ds arbitrary: ns)
  case Nil
  then show ?case by simp
next
  case (Cons d ds)
  from Cons.prems(1) obtain a ns' where ns: "ns = a # ns'" "a < d" "list_all2 (<) ns' ds"
    by (auto simp: list_all2_Cons2)
  have "mrv ds ns' < prod_list ds" using Cons.IH [OF ns(3)] .
  then have "d * (mrv ds ns' + 1) \<le> d * prod_list ds" by (intro mult_le_mono2) simp
  then show ?case using ns by simp
qed

lemma steps_0 [simp]: "steps 0 e = e"
  by (simp add: steps_def)

lemma steps_Suc [simp]: "steps (Suc k) e = increment (steps k e)"
  by (simp add: steps_def)

lemma e_c_increment: "e_c (increment e) = rev (fst (incRev (rev (e_c e))))"
  by (subst increment_incRev) simp

lemma e_done_increment: "e_done (increment e) = (e_done e \<or> snd (incRev (rev (e_c e))))"
  by (subst increment_incRev) simp

lemma increment_keeps:
  "map c_dim (e_c (increment e)) = map c_dim (e_c e)"
  "map c_r (e_c (increment e)) = map c_r (e_c e)"
  "map c_free (e_c (increment e)) = map c_free (e_c e)"
  by (simp_all add: e_c_increment rev_map [symmetric] incRev_keeps)

lemma steps_keeps:
  "map c_dim (e_c (steps k e)) = map c_dim (e_c e)"
  "map c_r (e_c (steps k e)) = map c_r (e_c e)"
  "map c_free (e_c (steps k e)) = map c_free (e_c e)"
  by (induction k) (simp_all add: increment_keeps)

lemma steps_length [simp]: "length (e_c (steps k e)) = length (e_c e)"
  using steps_keeps(1) [of k e] by (metis length_map)

lemma steps_rprod [simp]: "rprod (rev (e_c (steps k e))) = rprod (rev (e_c e))"
proof -
  have "map ext (e_c (steps k e)) = map ext (e_c e)"
    using steps_keeps(1) [of k e] by (simp add: list_eq_iff_nth_eq ext_def)
  then show ?thesis by (simp add: rprod_def rev_map [symmetric])
qed

text \<open>The state after \<open>k\<close> increments, as long as the mixed-radix value has room.\<close>

lemma steps_invariant:
  assumes "e_c e \<noteq> []" and "rvalid (rev (e_c e))" and "\<not> e_done e"
    and "rval (rev (e_c e)) + k < rprod (rev (e_c e))"
  shows "\<not> e_done (steps k e) \<and> rvalid (rev (e_c (steps k e)))
         \<and> rval (rev (e_c (steps k e))) = rval (rev (e_c e)) + k"
  using assms(4)
proof (induction k)
  case 0
  show ?case using assms by simp
next
  case (Suc k)
  let ?xs = "rev (e_c (steps k e))"
  have ih: "\<not> e_done (steps k e)" "rvalid ?xs" "rval ?xs = rval (rev (e_c e)) + k"
    using Suc by simp_all
  have ne: "?xs \<noteq> []" using assms(1) steps_length [of k e] by (metis length_0_conv rev_is_Nil_conv)
  have "rval ?xs + 1 \<noteq> rprod ?xs" using ih(3) Suc.prems by simp
  then have nd: "\<not> snd (incRev ?xs)" using incRev_done_iff [OF ih(2) ne] by simp
  have "rvalid (fst (incRev ?xs)) \<and> rval (fst (incRev ?xs)) = rval ?xs + 1"
    using incRev_step [OF ih(2) nd ne] .
  then show ?case using ih nd by (simp add: e_c_increment e_done_increment)
qed

lemma steps_done:
  assumes "e_c e \<noteq> []" and "rvalid (rev (e_c e))" and "\<not> e_done e"
    and "rval (rev (e_c e)) + k + 1 = rprod (rev (e_c e))"
  shows "e_done (steps (Suc k) e)"
proof -
  let ?xs = "rev (e_c (steps k e))"
  have "rval (rev (e_c e)) + k < rprod (rev (e_c e))" using assms(4) by simp
  then have inv: "rvalid ?xs" "rval ?xs = rval (rev (e_c e)) + k"
    using steps_invariant [OF assms(1-3)] by simp_all
  have ne: "?xs \<noteq> []" using assms(1) steps_length [of k e] by (metis length_0_conv rev_is_Nil_conv)
  have "rval ?xs + 1 = rprod ?xs" using inv(2) assms(4) by simp
  then have "snd (incRev ?xs)" using incRev_done_iff [OF inv(1) ne] by simp
  then show ?thesis by (simp add: e_done_increment)
qed

lemma rval_zero: "\<forall>x\<in>set xs. c_v x = 0 \<Longrightarrow> rval xs = 0 \<and> rvalid xs"
  by (induction xs) simp_all

lemma ext_dim: "\<forall>x\<in>set cs. 1 \<le> c_dim x \<Longrightarrow> map ext cs = map c_dim cs"
  by (induction cs) (simp_all add: ext_def)

lemma visited_facts:
  assumes "cs \<noteq> []" and "\<forall>x\<in>set cs. c_v x = 0 \<and> 1 \<le> c_dim x"
    and "k < prod_list (map c_dim cs)"
  shows "\<not> e_done (steps k (zeroState cs))"
    and "list_all2 (<) (rev (visited cs k)) (rev (map c_dim cs))"
    and "mrv (rev (map c_dim cs)) (rev (visited cs k)) = k"
proof -
  let ?e = "zeroState cs"
  let ?ek = "steps k ?e"
  have z: "rval (rev (e_c ?e)) = 0" "rvalid (rev (e_c ?e))"
    using rval_zero [of "rev cs"] assms(2) by (simp_all add: zeroState_def)
  have ed: "map ext cs = map c_dim cs" using assms(2) by (intro ext_dim) simp
  have p: "rprod (rev (e_c ?e)) = prod_list (map c_dim cs)"
    by (simp add: rprod_def zeroState_def rev_map [symmetric] ed)
  have inv: "\<not> e_done ?ek" "rvalid (rev (e_c ?ek))" "rval (rev (e_c ?ek)) = k"
    using steps_invariant [of ?e k] assms(1,3) z p by (simp_all add: zeroState_def)
  have dk: "map c_dim (e_c ?ek) = map c_dim cs"
    by (simp add: steps_keeps zeroState_def)
  have "\<forall>x\<in>set (e_c ?ek). 1 \<le> c_dim x"
  proof
    fix x assume "x \<in> set (e_c ?ek)"
    then have "c_dim x \<in> set (map c_dim cs)" using dk by (metis image_eqI set_map)
    then show "1 \<le> c_dim x" using assms(2) by auto
  qed
  then have ek: "map ext (e_c ?ek) = map c_dim cs" using ext_dim [of "e_c ?ek"] dk by simp
  show "\<not> e_done ?ek" by (rule inv(1))
  show "list_all2 (<) (rev (visited cs k)) (rev (map c_dim cs))"
    using inv(2) by (simp add: rvalid_all2 visited_def rev_map ek [symmetric])
  show "mrv (rev (map c_dim cs)) (rev (visited cs k)) = k"
    using inv(3) by (simp add: rval_mrv visited_def rev_map ek [symmetric])
qed

lemma steps_done_zero:
  assumes "cs \<noteq> []" and "\<forall>x\<in>set cs. c_v x = 0 \<and> 1 \<le> c_dim x"
  shows "e_done (steps (prod_list (map c_dim cs)) (zeroState cs))"
proof -
  let ?e = "zeroState cs"
  have z: "rval (rev (e_c ?e)) = 0" "rvalid (rev (e_c ?e))"
    using rval_zero [of "rev cs"] assms(2) by (simp_all add: zeroState_def)
  have ed: "map ext cs = map c_dim cs" using assms(2) by (intro ext_dim) simp
  have p: "rprod (rev (e_c ?e)) = prod_list (map c_dim cs)"
    by (simp add: rprod_def zeroState_def rev_map [symmetric] ed)
  have "0 < prod_list (map c_dim cs)" using assms(2) by (induction cs) auto
  then obtain k where k: "prod_list (map c_dim cs) = Suc k" by (cases "prod_list (map c_dim cs)") auto
  have "e_done (steps (Suc k) ?e)"
    using steps_done [of ?e k] assms(1) z p k by (simp add: zeroState_def)
  then show ?thesis by (simp add: k)
qed

lemma odometer_enumerates:
  assumes "cs \<noteq> []" and "\<forall>x\<in>set cs. c_v x = 0 \<and> 1 \<le> c_dim x"
  shows "distinct (map (visited cs) [0..<prod_list (map c_dim cs)])"
    and "set (map (visited cs) [0..<prod_list (map c_dim cs)])
           = {ns. length ns = length cs \<and> (\<forall>i<length cs. ns ! i < c_dim (cs ! i))}"
    and "sorted_wrt (\<lambda>a b. (a, b) \<in> lexord {(m, n). m < n})
           (map (visited cs) [0..<prod_list (map c_dim cs)])"
proof -
  let ?N = "prod_list (map c_dim cs)"
  let ?ds = "rev (map c_dim cs)"
  note vf = visited_facts [OF assms]
  show "distinct (map (visited cs) [0..<?N])"
  proof (simp add: distinct_map, rule inj_onI)
    fix i j assume "i \<in> {0..<?N}" "j \<in> {0..<?N}" and eq: "visited cs i = visited cs j"
    then have i: "i < ?N" and j: "j < ?N" by simp_all
    have "mrv ?ds (rev (visited cs i)) = mrv ?ds (rev (visited cs j))" by (simp only: eq)
    then show "i = j" by (simp only: vf(3) [OF i] vf(3) [OF j])
  qed
  show "sorted_wrt (\<lambda>a b. (a, b) \<in> lexord {(m, n). m < n}) (map (visited cs) [0..<?N])"
  proof (simp add: sorted_wrt_iff_nth_less, intro allI impI)
    fix i j assume ij: "i < j" "j < ?N"
    then have i: "i < ?N" by simp
    have "mrv ?ds (rev (visited cs i)) < mrv ?ds (rev (visited cs j))"
      using ij(1) by (simp only: vf(3) [OF i] vf(3) [OF ij(2)])
    then have "(rev (rev (visited cs i)), rev (rev (visited cs j))) \<in> lexord {(a, b). a < b}"
      using i ij(2) by (intro mrv_lex [of _ ?ds] vf(2))
    then show "(visited cs i, visited cs j) \<in> lexord {(m, n). m < n}" by simp
  qed
  show "set (map (visited cs) [0..<?N])
           = {ns. length ns = length cs \<and> (\<forall>i<length cs. ns ! i < c_dim (cs ! i))}"
  proof (intro set_eqI iffI)
    fix ns assume "ns \<in> set (map (visited cs) [0..<?N])"
    then obtain k where k: "k < ?N" "ns = visited cs k" by auto
    have "list_all2 (<) ns (map c_dim cs)" using vf(2) [OF k(1)] k(2) by (simp add: rev_map [symmetric])
    then show "ns \<in> {ns. length ns = length cs \<and> (\<forall>i<length cs. ns ! i < c_dim (cs ! i))}"
      by (auto simp: list_all2_conv_all_nth)
  next
    fix ns assume "ns \<in> {ns. length ns = length cs \<and> (\<forall>i<length cs. ns ! i < c_dim (cs ! i))}"
    then have "list_all2 (<) ns (map c_dim cs)"
      by (auto simp: list_all2_conv_all_nth)
    then have a: "list_all2 (<) (rev ns) ?ds"
      by simp
    let ?k = "mrv ?ds (rev ns)"
    have k: "?k < ?N" using mrv_less_prod [OF a] by simp
    have "rev (visited cs ?k) = rev ns"
      using vf(3) [OF k] by (intro mrv_inj [OF vf(2) [OF k] a])
    then have "visited cs ?k = ns" by simp
    then show "ns \<in> set (map (visited cs) [0..<?N])" using k by force
  qed
qed

lemma steps_empty: "e_c e = [] \<Longrightarrow> steps k e = e"
proof (induction k)
  case 0
  show ?case by simp
next
  case (Suc k)
  then show ?case by (simp add: increment_def incrementLoop.simps)
qed

text \<open>
  Claim C2, for a counter sequence that is not empty. Let every counter have extent at
  least 1 and start at 0, and let \<open>N\<close> be the product of the extents. Then the done flag
  is not set before any of the first \<open>N\<close> turns and is set by the \<open>N\<close>-th increment; the
  \<open>N\<close> combinations seen are pairwise distinct, they are exactly the combinations with
  every value below its extent, and they come in strictly increasing lexicographic order
  (first counter most significant).
\<close>

theorem odometer_visits_all:
  assumes "cs \<noteq> []" and "\<forall>x\<in>set cs. c_v x = 0 \<and> 1 \<le> c_dim x"
  shows "(\<forall>k<prod_list (map c_dim cs). \<not> e_done (steps k (zeroState cs)))
       \<and> e_done (steps (prod_list (map c_dim cs)) (zeroState cs))
       \<and> length (map (visited cs) [0..<prod_list (map c_dim cs)]) = prod_list (map c_dim cs)
       \<and> distinct (map (visited cs) [0..<prod_list (map c_dim cs)])
       \<and> set (map (visited cs) [0..<prod_list (map c_dim cs)])
            = {ns. length ns = length cs \<and> (\<forall>i<length cs. ns ! i < c_dim (cs ! i))}
       \<and> sorted_wrt (\<lambda>a b. (a, b) \<in> lexord {(m, n). m < n})
            (map (visited cs) [0..<prod_list (map c_dim cs)])"
  using visited_facts(1) [OF assms] steps_done_zero [OF assms] odometer_enumerates [OF assms]
  by simp

theorem odometer_visits_all_witness:
  "e_done (steps 6 (zeroState [\<lparr>c_r = CHR ''i'', c_free = True, c_v = 0, c_dim = 2\<rparr>,
                               \<lparr>c_r = CHR ''k'', c_free = False, c_v = 0, c_dim = 3\<rparr>]))
   \<and> distinct (map (visited [\<lparr>c_r = CHR ''i'', c_free = True, c_v = 0, c_dim = 2\<rparr>,
                              \<lparr>c_r = CHR ''k'', c_free = False, c_v = 0, c_dim = 3\<rparr>]) [0..<6])
   \<and> sorted_wrt (\<lambda>a b. (a, b) \<in> lexord {(m, n). m < n})
        (map (visited [\<lparr>c_r = CHR ''i'', c_free = True, c_v = 0, c_dim = 2\<rparr>,
                       \<lparr>c_r = CHR ''k'', c_free = False, c_v = 0, c_dim = 3\<rparr>]) [0..<6])"
  using odometer_visits_all [of "[\<lparr>c_r = CHR ''i'', c_free = True, c_v = 0, c_dim = 2\<rparr>,
                                  \<lparr>c_r = CHR ''k'', c_free = False, c_v = 0, c_dim = 3\<rparr>]"]
  by simp

text \<open>
  The claim as stated also covers the empty counter sequence, whose extents have the
  product 1: there the increment changes nothing and never sets the done flag.
\<close>

theorem odometer_empty_counterexample:
  "\<not> e_done (steps (prod_list (map c_dim ([] :: einsumCounter list))) (zeroState []))"
proof -
  have "steps k (zeroState []) = zeroState []" for k
    by (rule steps_empty) (simp add: zeroState_def)
  then show ?thesis by (simp add: zeroState_def)
qed

subsection \<open>The parser\<close>

lemma letter_not_special:
  "isLetter x \<Longrightarrow> x \<noteq> CHR '','' \<and> x \<noteq> CHR ''-'' \<and> x \<noteq> CHR ''>'' \<and> \<not> isSpace x"
  by (auto simp: isLetter_def isSpace_def Let_def)

lemma parseLoop_filter_space:
  "parseLoop (filter (\<lambda>x. \<not> isSpace x) s) o' m = parseLoop s o' m"
proof (induction s arbitrary: o' m)
  case Nil
  show ?case by simp
next
  case (Cons x s)
  show ?case
  proof (cases "isSpace x")
    case True
    then have "parseRune o' m x = Inr (o', m)"
      by (auto simp: parseRune_def isSpace_def)
    then show ?thesis using True Cons by simp
  next
    case False
    then show ?thesis using Cons by (simp split: sum.splits)
  qed
qed

lemma parseLoop_grow:
  assumes "\<forall>x\<in>set xs. isLetter x" and "inputs o' \<noteq> []"
  shows "parseLoop (xs @ rest) o' opsParseModeGrowInput =
         parseLoop rest \<lparr>seq = seq o' @ xs, all = all o' \<union> set xs, free = free o',
                          inputs = butlast (inputs o') @ [last (inputs o') @ xs],
                          outputs = outputs o'\<rparr> opsParseModeGrowInput"
  using assms
proof (induction xs arbitrary: o')
  case Nil
  then show ?case by (cases o') simp
next
  case (Cons x xs)
  let ?o1 = "\<lparr>seq = seq o' @ [x], all = insert x (all o'), free = free o',
              inputs = butlast (inputs o') @ [last (inputs o') @ [x]], outputs = outputs o'\<rparr>"
  have "parseRune o' opsParseModeGrowInput x = Inr (?o1, opsParseModeGrowInput)"
    using Cons.prems letter_not_special [of x] by (simp add: parseRune_def Let_def)
  moreover have "parseLoop (xs @ rest) ?o1 opsParseModeGrowInput =
      parseLoop rest \<lparr>seq = seq ?o1 @ xs, all = all ?o1 \<union> set xs, free = free ?o1,
                          inputs = butlast (inputs ?o1) @ [last (inputs ?o1) @ xs],
                          outputs = outputs ?o1\<rparr> opsParseModeGrowInput"
    using Cons.prems by (intro Cons.IH) simp_all
  ultimately show ?case by simp
qed

lemma parseLoop_new:
  assumes "\<forall>x\<in>set xs. isLetter x" and "xs \<noteq> []"
  shows "parseLoop (xs @ rest) o' opsParseModeNewInput =
         parseLoop rest \<lparr>seq = seq o' @ xs, all = all o' \<union> set xs, free = free o',
                          inputs = inputs o' @ [xs], outputs = outputs o'\<rparr> opsParseModeGrowInput"
proof -
  obtain x xs' where xs: "xs = x # xs'" using assms(2) by (cases xs) auto
  let ?o1 = "\<lparr>seq = seq o' @ [x], all = insert x (all o'), free = free o',
              inputs = inputs o' @ [[x]], outputs = outputs o'\<rparr>"
  have "parseRune o' opsParseModeNewInput x = Inr (?o1, opsParseModeGrowInput)"
    using assms(1) letter_not_special [of x] by (simp add: parseRune_def Let_def xs)
  moreover have "parseLoop (xs' @ rest) ?o1 opsParseModeGrowInput =
      parseLoop rest \<lparr>seq = seq ?o1 @ xs', all = all ?o1 \<union> set xs', free = free ?o1,
                          inputs = butlast (inputs ?o1) @ [last (inputs ?o1) @ xs'],
                          outputs = outputs ?o1\<rparr> opsParseModeGrowInput"
    using assms(1) by (intro parseLoop_grow) (simp_all add: xs)
  ultimately show ?thesis by (simp add: xs)
qed

lemma parseLoop_out:
  assumes "\<forall>x\<in>set xs. isLetter x"
  shows "parseLoop (xs @ rest) o' opsParseModeOutput =
         parseLoop rest \<lparr>seq = seq o' @ xs, all = all o' \<union> set xs, free = free o' \<union> set xs,
                          inputs = inputs o', outputs = outputs o' @ xs\<rparr> opsParseModeOutput"
  using assms
proof (induction xs arbitrary: o')
  case Nil
  then show ?case by (cases o') simp
next
  case (Cons x xs)
  let ?o1 = "\<lparr>seq = seq o' @ [x], all = insert x (all o'), free = insert x (free o'),
              inputs = inputs o', outputs = outputs o' @ [x]\<rparr>"
  have "parseRune o' opsParseModeOutput x = Inr (?o1, opsParseModeOutput)"
    using Cons.prems letter_not_special [of x] by (simp add: parseRune_def Let_def)
  moreover have "parseLoop (xs @ rest) ?o1 opsParseModeOutput =
      parseLoop rest \<lparr>seq = seq ?o1 @ xs, all = all ?o1 \<union> set xs, free = free ?o1 \<union> set xs,
                          inputs = inputs ?o1, outputs = outputs ?o1 @ xs\<rparr> opsParseModeOutput"
    using Cons.prems by (intro Cons.IH) simp_all
  ultimately show ?case by simp
qed

lemma parseLoop_inputs:
  assumes "inps \<noteq> []" and "\<forall>xs\<in>set inps. xs \<noteq> [] \<and> (\<forall>x\<in>set xs. isLetter x)"
  shows "parseLoop (writeInputs inps @ rest) o' opsParseModeNewInput =
         parseLoop rest \<lparr>seq = seq o' @ writeInputs inps, all = all o' \<union> \<Union>(set ` set inps),
                          free = free o', inputs = inputs o' @ inps, outputs = outputs o'\<rparr>
           opsParseModeGrowInput"
  using assms
proof (induction inps arbitrary: o' rule: writeInputs.induct)
  case 1
  then show ?case by simp
next
  case (2 xs)
  then show ?case using parseLoop_new [of xs rest o'] by simp
next
  case (3 xs ys yss)
  let ?o1 = "\<lparr>seq = seq o' @ xs, all = all o' \<union> set xs, free = free o',
                          inputs = inputs o' @ [xs], outputs = outputs o'\<rparr>"
  let ?o2 = "?o1\<lparr>seq := seq ?o1 @ '',''\<rparr>"
  have a: "parseLoop (xs @ CHR '','' # writeInputs (ys # yss) @ rest) o' opsParseModeNewInput
          = parseLoop (CHR '','' # writeInputs (ys # yss) @ rest) ?o1 opsParseModeGrowInput"
    using 3(2,3) by (intro parseLoop_new) simp_all
  have b: "parseRune ?o1 opsParseModeGrowInput CHR '','' = Inr (?o2, opsParseModeNewInput)"
    by (simp add: parseRune_def)
  have c: "parseLoop (writeInputs (ys # yss) @ rest) ?o2 opsParseModeNewInput =
         parseLoop rest \<lparr>seq = seq ?o2 @ writeInputs (ys # yss), all = all ?o2 \<union> \<Union>(set ` set (ys # yss)),
                          free = free ?o2, inputs = inputs ?o2 @ (ys # yss), outputs = outputs ?o2\<rparr>
           opsParseModeGrowInput"
    using 3(2,3) by (intro 3(1)) simp_all
  show ?case using a b c by (simp add: Un_assoc)
qed

lemma parseEinsum_rendered:
  assumes "inps \<noteq> []" and "\<forall>xs\<in>set inps. xs \<noteq> [] \<and> (\<forall>x\<in>set xs. isLetter x)"
    and "\<forall>x\<in>set out. isLetter x"
  shows "parseEinsum (writeInputs inps @ ''->'' @ out) =
     Inr \<lparr>seq = writeInputs inps @ ''->'' @ out, all = \<Union>(set ` set inps) \<union> set out,
          free = set out, inputs = inps, outputs = out\<rparr>"
proof -
  let ?o1 = "\<lparr>seq = writeInputs inps, all = \<Union>(set ` set inps), free = {}, inputs = inps, outputs = []\<rparr>"
  have a: "parseLoop (writeInputs inps @ ''->'' @ out) emptyOps opsParseModeNewInput
       = parseLoop (''->'' @ out) ?o1 opsParseModeGrowInput"
    using parseLoop_inputs [OF assms(1,2), of "''->'' @ out" emptyOps] by (simp add: emptyOps_def)
  let ?o2 = "\<lparr>seq = writeInputs inps @ ''->'', all = \<Union>(set ` set inps), free = {}, inputs = inps, outputs = []\<rparr>"
  have b: "parseLoop (''->'' @ out) ?o1 opsParseModeGrowInput = parseLoop (out @ []) ?o2 opsParseModeOutput"
    by (simp add: parseRune_def last_rune_def)
  have c: "parseLoop (out @ []) ?o2 opsParseModeOutput =
     Inr \<lparr>seq = writeInputs inps @ ''->'' @ out, all = \<Union>(set ` set inps) \<union> set out,
          free = set out, inputs = inps, outputs = out\<rparr>"
    using parseLoop_out [OF assms(3), of "[]" ?o2] by simp
  show ?thesis unfolding parseEinsum_def using a b c by simp
qed

lemma Union_butlast_last:
  assumes "xss \<noteq> []"
  shows "\<Union>(set ` set (butlast xss @ [last xss @ [x]])) = insert x (\<Union>(set ` set xss))"
proof -
  obtain ys y where "xss = ys @ [y]" using assms by (cases xss rule: rev_cases) auto
  then show ?thesis by auto
qed

lemma parseRune_comma: "parseRune o' m CHR '','' = Inr (o'\<lparr>seq := seq o' @ '',''\<rparr>, opsParseModeNewInput)"
  by (simp add: parseRune_def)

lemma parseRune_dash: "parseRune o' m CHR ''-'' = Inr (o'\<lparr>seq := seq o' @ ''-''\<rparr>, m)"
  by (simp add: parseRune_def)

lemma parseRune_gt:
  "parseRune o' m CHR ''>'' =
     (if last_rune o' \<noteq> CHR ''-'' then Inl (UnexpectedCharAfterDash CHR ''>'')
      else Inr (o'\<lparr>seq := seq o' @ ''>''\<rparr>, opsParseModeOutput))"
  by (simp add: parseRune_def)

lemma parseRune_space: "isSpace x \<Longrightarrow> parseRune o' m x = Inr (o', m)"
  by (auto simp: parseRune_def isSpace_def)

lemma parseRune_other:
  assumes "x \<noteq> CHR '',''" "x \<noteq> CHR ''-''" "x \<noteq> CHR ''>''" "\<not> isSpace x"
  shows "parseRune o' m x =
     (if \<not> isLetter x then Inl (UnexpectedNonLetter x)
      else case m of
           opsParseModeNewInput \<Rightarrow>
             Inr (o'\<lparr>all := insert x (all o'), inputs := inputs o' @ [[x]], seq := seq o' @ [x]\<rparr>,
                  opsParseModeGrowInput)
         | opsParseModeGrowInput \<Rightarrow>
             (if inputs o' = [] then Inl IndexOutOfRange
              else Inr (o'\<lparr>all := insert x (all o'),
                            inputs := butlast (inputs o') @ [last (inputs o') @ [x]],
                            seq := seq o' @ [x]\<rparr>, opsParseModeGrowInput))
         | opsParseModeOutput \<Rightarrow>
             Inr (o'\<lparr>all := insert x (all o'), free := insert x (free o'),
                      outputs := outputs o' @ [x], seq := seq o' @ [x]\<rparr>, opsParseModeOutput))"
  using assms by (simp add: parseRune_def Let_def split: opsParseMode.split)

lemma parseRune_opsInv:
  assumes "opsInv o'" and "parseRune o' m x = Inr (o1, m1)"
  shows "opsInv o1"
proof -
  consider "x = CHR '',''" | "x = CHR ''-''" | "x = CHR ''>''" | "isSpace x"
    | "x \<noteq> CHR '',''" "x \<noteq> CHR ''-''" "x \<noteq> CHR ''>''" "\<not> isSpace x" by blast
  then show ?thesis
  proof cases
    case 1
    then show ?thesis using assms by (auto simp: parseRune_comma opsInv_def)
  next
    case 2
    then show ?thesis using assms by (auto simp: parseRune_dash opsInv_def)
  next
    case 3
    then show ?thesis using assms by (auto simp: parseRune_gt opsInv_def split: if_splits)
  next
    case 4
    then show ?thesis using assms by (simp add: parseRune_space)
  next
    case 5
    note eq = assms(2) [unfolded parseRune_other [OF 5]]
    then have l: "isLetter x" by (auto split: if_splits)
    show ?thesis
    proof (cases m)
      case opsParseModeNewInput
      then have "o1 = o'\<lparr>all := insert x (all o'), inputs := inputs o' @ [[x]], seq := seq o' @ [x]\<rparr>"
        using eq l by simp
      then show ?thesis using assms(1) by (auto simp: opsInv_def)
    next
      case opsParseModeGrowInput
      then have ne: "inputs o' \<noteq> []" using eq l by (auto split: if_splits)
      have o1: "o1 = o'\<lparr>all := insert x (all o'), inputs := butlast (inputs o') @ [last (inputs o') @ [x]],
                     seq := seq o' @ [x]\<rparr>"
        using eq l ne opsParseModeGrowInput by simp
      have b: "[] \<notin> set (butlast (inputs o'))" using assms(1) by (auto simp: opsInv_def dest: in_set_butlastD)
      have u: "\<Union>(set ` set (inputs o1)) = insert x (\<Union>(set ` set (inputs o')))"
        unfolding o1 using Union_butlast_last [OF ne, of x] by simp
      have "[] \<notin> set (inputs o1)" using b by (simp add: o1)
      moreover have "free o1 = set (outputs o1)" using assms(1) by (simp add: o1 opsInv_def)
      moreover have "all o1 = \<Union>(set ` set (inputs o1)) \<union> set (outputs o1)"
        unfolding u using assms(1) by (simp add: o1 opsInv_def)
      ultimately show ?thesis by (simp add: opsInv_def)
    next
      case opsParseModeOutput
      then have "o1 = o'\<lparr>all := insert x (all o'), free := insert x (free o'),
                      outputs := outputs o' @ [x], seq := seq o' @ [x]\<rparr>"
        using eq l by simp
      then show ?thesis using assms(1) by (auto simp: opsInv_def)
    qed
  qed
qed

lemma parseLoop_opsInv:
  "opsInv o' \<Longrightarrow> parseLoop s o' m = Inr ops \<Longrightarrow> opsInv ops"
proof (induction s arbitrary: o' m)
  case Nil
  then show ?case by simp
next
  case (Cons x s)
  then show ?case
    by (auto split: sum.splits dest: parseRune_opsInv)
qed

lemma parseEinsum_opsInv:
  assumes "parseEinsum s = Inr ops"
  shows "opsInv ops"
proof -
  have "opsInv emptyOps" by (simp add: opsInv_def emptyOps_def)
  then show ?thesis using assms parseLoop_opsInv unfolding parseEinsum_def by blast
qed

lemma opsInv_finite: "opsInv o' \<Longrightarrow> finite (all o')"
  by (simp add: opsInv_def)

lemma opsInv_no_letters:
  "opsInv o' \<Longrightarrow> all o' = {} \<Longrightarrow> inputs o' = [] \<and> outputs o' = [] \<and> free o' = {}"
proof -
  assume a: "opsInv o'" "all o' = {}"
  have "inputs o' = []"
  proof (cases "inputs o'")
    case (Cons xs xss)
    then have "xs \<noteq> []" "set xs \<subseteq> all o'" using a(1) by (auto simp: opsInv_def)
    then show ?thesis using a(2) by auto
  qed simp
  then show ?thesis using a by (auto simp: opsInv_def)
qed

subsection \<open>The executor and the drive loop\<close>

lemma increment_empty: "e_c e = [] \<Longrightarrow> increment e = e"
  by (simp add: increment_def incrementLoop.simps)

lemma body_no_operands:
  "e_c e = [] \<Longrightarrow> out \<noteq> [] \<Longrightarrow> body o' [] e out = Inr (out[0 := out ! 0 + 1])"
  by (simp add: body_def outputIdx_def)

lemma drive_empty_Some:
  assumes "drive o' operands e out = Some y"
  shows "\<not> (operands = [] \<and> e_c e = [] \<and> \<not> e_done e \<and> out \<noteq> [])"
proof (rule drive.raw_induct
    [where P = "\<lambda>o' operands e out y. \<not> (operands = [] \<and> e_c e = [] \<and> \<not> e_done e \<and> out \<noteq> [])",
     OF _ assms])
  fix f :: "einsumOps \<Rightarrow> 'a Matrix list \<Rightarrow> einsumExecutor \<Rightarrow> 'a list \<Rightarrow> (error + 'a list) option"
  fix p ms x xs z
  assume ih: "\<And>p ms x xs z. f p ms x xs = Some z \<Longrightarrow>
                \<not> (ms = [] \<and> e_c x = [] \<and> \<not> e_done x \<and> xs \<noteq> [])"
    and eq: "(if e_done x then Some (Inr xs)
              else case body p ms x xs of Inl err \<Rightarrow> Some (Inl err)
                   | Inr out' \<Rightarrow> f p ms (increment x) out') = Some z"
  show "\<not> (ms = [] \<and> e_c x = [] \<and> \<not> e_done x \<and> xs \<noteq> [])"
  proof
    assume a: "ms = [] \<and> e_c x = [] \<and> \<not> e_done x \<and> xs \<noteq> []"
    then have "f p ms x (xs[0 := xs ! 0 + 1]) = Some z"
      using eq by (simp add: body_no_operands increment_empty)
    from ih [OF this] show False using a by simp
  qed
qed

lemma drive_empty_diverges:
  "e_c e = [] \<Longrightarrow> \<not> e_done e \<Longrightarrow> out \<noteq> [] \<Longrightarrow> drive o' [] e out = None"
  using drive_empty_Some [of o' "[]" e out] by (cases "drive o' [] e out") auto

lemma drive_terminates_aux:
  "rprod (rev (e_c e)) - rval (rev (e_c e)) = n \<Longrightarrow> e_c e \<noteq> [] \<Longrightarrow> rvalid (rev (e_c e)) \<Longrightarrow>
   drive o' operands e out \<noteq> None"
proof (induction n arbitrary: e out rule: less_induct)
  case (less n)
  let ?xs = "rev (e_c e)"
  have ne: "?xs \<noteq> []" using less.prems(2) by simp
  show ?case
  proof (cases "e_done e")
    case True
    then show ?thesis by (subst drive.simps) simp
  next
    case nd: False
    show ?thesis
    proof (cases "body o' operands e out")
      case (Inl err)
      then show ?thesis using nd by (subst drive.simps) simp
    next
      case (Inr out')
      have d: "drive o' operands e out = drive o' operands (increment e) out'"
        using nd Inr by (subst drive.simps) simp
      show ?thesis
      proof (cases "snd (incRev ?xs)")
        case True
        then have "e_done (increment e)" by (simp add: e_done_increment)
        then show ?thesis unfolding d by (subst drive.simps) simp
      next
        case False
        have st: "rvalid (fst (incRev ?xs))" "rval (fst (incRev ?xs)) = rval ?xs + 1"
          using incRev_step [OF less.prems(3) False ne] by simp_all
        have lt: "rval ?xs < rprod ?xs" using less.prems(3) by (rule rval_less_rprod)
        have "drive o' operands (increment e) out' \<noteq> None"
        proof (rule less.IH [OF _ refl])
          show "rprod (rev (e_c (increment e))) - rval (rev (e_c (increment e))) < n"
            using st lt less.prems(1) by (simp add: e_c_increment)
          have "length (e_c (increment e)) = length (e_c e)" by (simp add: e_c_increment)
          then show "e_c (increment e) \<noteq> []"
            using less.prems(2) by (metis length_0_conv)
          show "rvalid (rev (e_c (increment e)))"
            using st by (simp add: e_c_increment)
        qed
        then show ?thesis unfolding d .
      qed
    qed
  qed
qed

lemma drive_terminates:
  "e_c e \<noteq> [] \<Longrightarrow> \<forall>x\<in>set (e_c e). c_v x = 0 \<Longrightarrow> \<exists>res. drive o' operands e out = Some res"
  using drive_terminates_aux [OF refl, of e o' operands out] rval_zero [of "rev (e_c e)"]
  by auto

lemma setFree_keeps:
  "setFree xs i cs = Inr cs' \<Longrightarrow>
   length cs' = length cs \<and> ((\<forall>x\<in>set cs. c_v x = 0) \<longrightarrow> (\<forall>x\<in>set cs'. c_v x = 0))"
proof (induction xs arbitrary: i cs)
  case Nil
  then show ?case by simp
next
  case (Cons x xs)
  let ?cs = "cs[i := \<lparr>c_r = x, c_free = True, c_v = 0, c_dim = 0\<rparr>]"
  have i: "i < length cs" and r: "setFree xs (i + 1) ?cs = Inr cs'"
    using Cons.prems by (auto split: if_splits)
  have "(\<forall>x\<in>set cs. c_v x = 0) \<longrightarrow> (\<forall>x\<in>set ?cs. c_v x = 0)"
    using set_update_subset_insert [of cs i] by fastforce
  then show ?case using Cons.IH [OF r] by simp
qed

lemma setSummed_keeps:
  "setSummed ks o' s cs = Inr cs' \<Longrightarrow>
   length cs' = length cs \<and> ((\<forall>x\<in>set cs. c_v x = 0) \<longrightarrow> (\<forall>x\<in>set cs'. c_v x = 0))"
proof (induction ks arbitrary: s cs)
  case Nil
  then show ?case by simp
next
  case (Cons x ks)
  show ?case
  proof (cases "x \<in> free o'")
    case True
    then show ?thesis using Cons by simp
  next
    case False
    let ?cs = "cs[length (outputs o') + s := \<lparr>c_r = x, c_free = False, c_v = 0, c_dim = 0\<rparr>]"
    have r: "setSummed ks o' (s + 1) ?cs = Inr cs'"
      using Cons.prems False by (auto split: if_splits)
    have "(\<forall>x\<in>set cs. c_v x = 0) \<longrightarrow> (\<forall>x\<in>set ?cs. c_v x = 0)"
      using set_update_subset_insert [of cs "length (outputs o') + s"] by fastforce
    then show ?thesis using Cons.IH [OF r] by simp
  qed
qed

lemma setDims_keeps:
  "setDims o' operands cs = Inr (cs', ds) \<Longrightarrow>
   map c_v cs' = map c_v cs \<and> map c_r cs' = map c_r cs \<and> map c_free cs' = map c_free cs"
proof (induction cs arbitrary: cs' ds)
  case Nil
  then show ?case by simp
next
  case (Cons x cs)
  then show ?case by (auto split: sum.splits)
qed

lemma executor_counters:
  assumes "executor o' operands ks = Inr (e, ds)"
  shows "length (e_c e) = card (all o')" and "\<forall>x\<in>set (e_c e). c_v x = 0" and "\<not> e_done e"
proof -
  from assms obtain c1 c2 c3 where
    c1: "setFree (outputs o') 0 (replicate (card (all o')) zeroCounter) = Inr c1" and
    c2: "setSummed ks o' 0 c1 = Inr c2" and
    c3: "setDims o' operands c2 = Inr (c3, ds)" and
    e: "e = \<lparr>e_c = c3, e_done = False\<rparr>"
    by (auto simp: executor_def split: sum.splits)
  have z: "\<forall>x\<in>set (replicate (card (all o')) zeroCounter). c_v x = 0"
    by (simp add: zeroCounter_def)
  have l1: "length c1 = card (all o')" "\<forall>x\<in>set c1. c_v x = 0"
    using setFree_keeps [OF c1] z by simp_all
  have l2: "length c2 = card (all o')" "\<forall>x\<in>set c2. c_v x = 0"
    using setSummed_keeps [OF c2] l1 by simp_all
  have m: "map c_v c3 = map c_v c2" using setDims_keeps [OF c3] by simp
  then have "length c3 = length c2" by (metis length_map)
  then show "length (e_c e) = card (all o')" using l2 e by simp
  have "set (map c_v c3) = set (map c_v c2)" using m by simp
  then show "\<forall>x\<in>set (e_c e). c_v x = 0" using l2(2) e by (simp only: set_map) force
  show "\<not> e_done e" using e by simp
qed

subsection \<open>Round trip of the parser\<close>

text \<open>
  Claim C3. A well-formed subscript is one that, once its white space is dropped, reads
  as one or more non-empty letter sequences joined by single commas, then \<^verbatim>\<open>->\<close>, then
  the (possibly empty) output letters. For every such string the parser succeeds, finds
  exactly these sequences, and \<^verbatim>\<open>String\<close> of the result is the original string without
  its white space.
\<close>

theorem parse_roundtrip:
  assumes "inps \<noteq> []" and "\<forall>xs\<in>set inps. xs \<noteq> [] \<and> (\<forall>x\<in>set xs. isLetter x)"
    and "\<forall>x\<in>set out. isLetter x"
    and "filter (\<lambda>x. \<not> isSpace x) s = writeInputs inps @ ''->'' @ out"
  shows "\<exists>ops. parseEinsum s = Inr ops \<and> inputs ops = inps \<and> outputs ops = out
           \<and> String_ops ops = filter (\<lambda>x. \<not> isSpace x) s"
proof -
  let ?ops = "\<lparr>seq = writeInputs inps @ ''->'' @ out, all = \<Union>(set ` set inps) \<union> set out,
          free = set out, inputs = inps, outputs = out\<rparr>"
  have "parseEinsum s = parseEinsum (filter (\<lambda>x. \<not> isSpace x) s)"
    by (simp add: parseEinsum_def parseLoop_filter_space)
  also have "\<dots> = Inr ?ops"
    unfolding assms(4) by (rule parseEinsum_rendered [OF assms(1-3)])
  finally have "parseEinsum s = Inr ?ops" .
  moreover have "String_ops ?ops = filter (\<lambda>x. \<not> isSpace x) s"
    unfolding assms(4) by (simp add: String_ops_def)
  ultimately show ?thesis by (intro exI [of _ ?ops]) simp
qed

theorem parse_roundtrip_witness:
  "\<exists>ops. parseEinsum ''ij, jk -> ik'' = Inr ops \<and> inputs ops = [''ij'', ''jk''] \<and> outputs ops = ''ik''
           \<and> String_ops ops = ''ij,jk->ik''"
  using parse_roundtrip [of "[''ij'', ''jk'']" "''ik''" "''ij, jk -> ik''"]
  by (simp add: isLetter_def isSpace_def)

subsection \<open>A dash that is not followed by \<^verbatim>\<open>>\<close>\<close>

text \<open>
  Claim C5 says that a \<^verbatim>\<open>-\<close> not immediately followed by \<^verbatim>\<open>>\<close> makes the parser fail.
  The parser only checks, at a \<^verbatim>\<open>>\<close>, that the rune before it was \<^verbatim>\<open>-\<close>; the
  subscripts \<^verbatim>\<open>i-j\<close> and \<^verbatim>\<open>ij-\<close> are accepted, and the dash is dropped.
\<close>

theorem parse_dash_accepted:
  "parseEinsum ''i-j'' =
     Inr \<lparr>seq = ''i-j'', all = {CHR ''i'', CHR ''j''}, free = {}, inputs = [''ij''], outputs = []\<rparr>
   \<and> parseEinsum ''ij-'' =
     Inr \<lparr>seq = ''ij-'', all = {CHR ''i'', CHR ''j''}, free = {}, inputs = [''ij''], outputs = []\<rparr>"
  by (auto simp: parseEinsum_def emptyOps_def parseRune_def last_rune_def isSpace_def isLetter_def)

subsection \<open>Subscripts without operands\<close>

lemma parseLoop_separators:
  "\<forall>x\<in>set s. x = CHR '','' \<or> isSpace x \<Longrightarrow>
   parseLoop s o' m = Inr (o'\<lparr>seq := seq o' @ filter (\<lambda>x. \<not> isSpace x) s\<rparr>)"
proof (induction s arbitrary: o' m)
  case Nil
  show ?case by simp
next
  case (Cons x s)
  show ?case
  proof (cases "x = CHR '',''")
    case True
    then have "\<not> isSpace x" by (simp add: isSpace_def)
    then show ?thesis using True Cons by (simp add: parseRune_comma)
  next
    case False
    then have "isSpace x" using Cons.prems by simp
    then show ?thesis using Cons by (simp add: parseRune_space)
  qed
qed

text \<open>
  Claim C7, as the parser behaves: a subscript made of commas and white space only (the
  empty string among them) has no operands, and parsing it succeeds with a
  specification that has no operand sequence, no output letter and no index letter.
\<close>

theorem parse_no_operands:
  assumes "\<forall>x\<in>set s. x = CHR '','' \<or> isSpace x"
  shows "parseEinsum s =
     Inr \<lparr>seq = filter (\<lambda>x. \<not> isSpace x) s, all = {}, free = {}, inputs = [], outputs = []\<rparr>"
  using parseLoop_separators [OF assms] by (simp add: parseEinsum_def emptyOps_def)

theorem parse_no_operands_witness:
  "parseEinsum '', ,'' = Inr \<lparr>seq = '',,'', all = {}, free = {}, inputs = [], outputs = []\<rparr>"
  using parse_no_operands [of "'', ,''"] by (simp add: isSpace_def)

subsection \<open>Termination of the drive loop\<close>

lemma Einsum_no_letters:
  assumes "parseEinsum s = Inr ops" and "all ops = {}" and "rangeOrder ops ks"
  shows "Einsum s ([] :: 'a::{zero,one,plus,times} Matrix list) ks = None"
proof -
  have i: "inputs ops = []" "outputs ops = []" "free ops = {}"
    using opsInv_no_letters [OF parseEinsum_opsInv [OF assms(1)] assms(2)] by simp_all
  have ks: "ks = []" using assms(2,3) by (simp add: rangeOrder_def)
  have ex: "executor ops ([] :: 'a Matrix list) ks = Inr (\<lparr>e_c = [], e_done = False\<rparr>, [])"
    by (simp add: executor_def i ks assms(2))
  have "drive ops ([] :: 'a Matrix list) \<lparr>e_c = [], e_done = False\<rparr> (outputZeros []) = None"
    by (rule drive_empty_diverges) (simp_all add: outputZeros_def)
  then show ?thesis by (simp add: Einsum_def assms(1) ex)
qed

lemma Einsum_letters_returns:
  assumes "parseEinsum s = Inr ops" and "all ops \<noteq> {}"
  shows "\<exists>res. Einsum s operands ks = Some res"
proof (cases "executor ops operands ks")
  case (Inl err)
  then show ?thesis by (simp add: Einsum_def assms(1))
next
  case (Inr p)
  obtain e ds where p: "p = (e, ds)" by (cases p)
  have ex: "executor ops operands ks = Inr (e, ds)" using Inr p by simp
  have "0 < card (all ops)"
    using assms(2) opsInv_finite [OF parseEinsum_opsInv [OF assms(1)]] by (simp add: card_gt_0_iff)
  then have ne: "e_c e \<noteq> []" using executor_counters(1) [OF ex] by auto
  obtain res where "drive ops operands e (outputZeros ds) = Some res"
    using drive_terminates [OF ne executor_counters(2) [OF ex]] by blast
  then show ?thesis by (cases res) (simp_all add: Einsum_def assms(1) ex)
qed

lemma steps_reach_done:
  assumes "cs \<noteq> []" and "\<forall>x\<in>set cs. c_v x = 0"
  shows "e_done (steps (rprod (rev cs)) (zeroState cs))"
proof -
  let ?e = "zeroState cs"
  have z: "rval (rev (e_c ?e)) = 0" "rvalid (rev (e_c ?e))"
    using rval_zero [of "rev cs"] assms(2) by (simp_all add: zeroState_def)
  have "0 < rprod (rev cs)" by (induction cs) (simp_all add: rprod_def)
  then obtain k where k: "rprod (rev cs) = Suc k" by (cases "rprod (rev cs)") auto
  have "e_done (steps (Suc k) ?e)"
    using steps_done [of ?e k] assms(1) z k by (simp add: zeroState_def)
  then show ?thesis by (simp add: k)
qed


lemma parse_empty: "parseEinsum '''' = Inr emptyOps"
  by (simp add: parseEinsum_def)

lemma parse_i: "parseEinsum ''i'' = Inr \<lparr>seq = ''i'', all = {CHR ''i''}, free = {}, inputs = [''i''], outputs = []\<rparr>"
  by (simp add: parseEinsum_def emptyOps_def parseRune_def isSpace_def isLetter_def)


text \<open>
  Against claim C7 as stated: the empty subscript parses without error, and the call of
  \<^verbatim>\<open>Einsum\<close> on it (with no operands) reports nothing, because it does not return.
\<close>

theorem parse_empty_counterexample:
  "parseEinsum '''' = Inr emptyOps \<and> Einsum '''' ([] :: real Matrix list) [] = None"
  using Einsum_no_letters [OF parse_empty, of "[]"] by (simp add: parse_empty emptyOps_def rangeOrder_def)

subsection \<open>What the executor builds\<close>

lemma setFree_result:
  "setFree xs i cs = Inr cs' \<Longrightarrow>
   cs' = take i cs @ map freeCounter xs @ drop (i + length xs) cs
   \<and> (xs \<noteq> [] \<longrightarrow> i + length xs \<le> length cs)"
proof (induction xs arbitrary: i cs)
  case Nil
  then show ?case by simp
next
  case (Cons x xs)
  let ?cs = "cs[i := freeCounter x]"
  have i: "i < length cs" and r: "setFree xs (i + 1) ?cs = Inr cs'"
    using Cons.prems by (auto simp: freeCounter_def split: if_splits)
  have "cs' = take (i + 1) ?cs @ map freeCounter xs @ drop (i + 1 + length xs) ?cs"
    and le: "xs \<noteq> [] \<longrightarrow> i + 1 + length xs \<le> length ?cs"
    using Cons.IH [OF r] by simp_all
  moreover have "take (i + 1) ?cs = take i cs @ [freeCounter x]"
    using i by (simp add: take_Suc_conv_app_nth)
  moreover have "drop (i + 1 + length xs) ?cs = drop (i + 1 + length xs) cs"
    by simp
  ultimately show ?case using le i by (cases "xs = []") simp_all
qed

lemma setSummed_result:
  "setSummed ks o' s cs = Inr cs' \<Longrightarrow>
   cs' = take (length (outputs o') + s) cs @ map summedCounter (filter (\<lambda>x. x \<notin> free o') ks)
           @ drop (length (outputs o') + s + length (filter (\<lambda>x. x \<notin> free o') ks)) cs
   \<and> (filter (\<lambda>x. x \<notin> free o') ks \<noteq> [] \<longrightarrow>
        length (outputs o') + s + length (filter (\<lambda>x. x \<notin> free o') ks) \<le> length cs)"
proof (induction ks arbitrary: s cs)
  case Nil
  then show ?case by simp
next
  case (Cons x ks)
  let ?n = "length (outputs o') + s"
  let ?fs = "filter (\<lambda>x. x \<notin> free o') ks"
  show ?case
  proof (cases "x \<in> free o'")
    case True
    then show ?thesis using Cons by simp
  next
    case False
    let ?cs = "cs[?n := summedCounter x]"
    have i: "?n < length cs" and r: "setSummed ks o' (s + 1) ?cs = Inr cs'"
      using Cons.prems False by (auto simp: summedCounter_def split: if_splits)
    have "cs' = take (?n + 1) ?cs @ map summedCounter ?fs @ drop (?n + 1 + length ?fs) ?cs"
      and le: "?fs \<noteq> [] \<longrightarrow> ?n + 1 + length ?fs \<le> length ?cs"
      using Cons.IH [OF r] by (simp_all add: add.assoc)
    moreover have "take (?n + 1) ?cs = take ?n cs @ [summedCounter x]"
      using i by (simp add: take_Suc_conv_app_nth)
    moreover have "drop (?n + 1 + length ?fs) ?cs = drop (?n + 1 + length ?fs) cs"
      by simp
    ultimately show ?thesis using False le i by (cases "?fs = []") simp_all
  qed
qed

lemma setDims_result:
  "setDims o' operands cs = Inr (cs', ds) \<Longrightarrow>
   cs' = map (\<lambda>ec. ec\<lparr>c_dim := extentOf o' operands (c_r ec)\<rparr>) cs
   \<and> ds = map (\<lambda>ec. extentOf o' operands (c_r ec)) (filter c_free cs)
   \<and> (\<forall>ec\<in>set cs. dimOf o' (c_r ec) operands = Inr (extentOf o' operands (c_r ec)))"
proof (induction cs arbitrary: cs' ds)
  case Nil
  then show ?case by simp
next
  case (Cons ec cs)
  from Cons.prems obtain d where d: "dimOf o' (c_r ec) operands = Inr d"
    by (auto split: sum.splits)
  from Cons.prems d obtain cs1 ds1 where r: "setDims o' operands cs = Inr (cs1, ds1)"
    by (auto split: sum.splits)
  have e: "extentOf o' operands (c_r ec) = d" by (simp add: extentOf_def d)
  have res: "cs' = ec\<lparr>c_dim := d\<rparr> # cs1" "ds = (if c_free ec then d # ds1 else ds1)"
    using Cons.prems d r by simp_all
  show ?case using Cons.IH [OF r] res e d by simp
qed

lemma executor_result:
  assumes "executor o' operands ks = Inr (e, ds)"
  shows "\<exists>zs. e_c e = map (\<lambda>ec. ec\<lparr>c_dim := extentOf o' operands (c_r ec)\<rparr>)
                      (map freeCounter (outputs o')
                       @ map summedCounter (filter (\<lambda>x. x \<notin> free o') ks) @ zs)
              \<and> (\<forall>z\<in>set zs. z = zeroCounter)
              \<and> length (e_c e) = card (all o')"
    and "ds = map (extentOf o' operands) (outputs o')"
    and "\<forall>x\<in>set (outputs o'). dimOf o' x operands = Inr (extentOf o' operands x)"
    and "\<forall>x\<in>set ks. x \<notin> free o' \<longrightarrow> dimOf o' x operands = Inr (extentOf o' operands x)"
proof -
  let ?n = "card (all o')"
  let ?lo = "length (outputs o')"
  let ?fs = "filter (\<lambda>x. x \<notin> free o') ks"
  from assms obtain c1 c2 c3 where
    c1: "setFree (outputs o') 0 (replicate ?n zeroCounter) = Inr c1" and
    c2: "setSummed ks o' 0 c1 = Inr c2" and
    c3: "setDims o' operands c2 = Inr (c3, ds)" and
    e: "e = \<lparr>e_c = c3, e_done = False\<rparr>"
    by (auto simp: executor_def split: sum.splits)
  have r1: "c1 = map freeCounter (outputs o') @ replicate (?n - ?lo) zeroCounter"
    using setFree_result [OF c1] by simp
  have r2: "c2 = map freeCounter (outputs o') @ map summedCounter ?fs
                  @ replicate (?n - ?lo - length ?fs) zeroCounter"
    using setSummed_result [OF c2] by (simp add: r1)
  have r3: "c3 = map (\<lambda>ec. ec\<lparr>c_dim := extentOf o' operands (c_r ec)\<rparr>) c2"
    "ds = map (\<lambda>ec. extentOf o' operands (c_r ec)) (filter c_free c2)"
    "\<forall>ec\<in>set c2. dimOf o' (c_r ec) operands = Inr (extentOf o' operands (c_r ec))"
    using setDims_result [OF c3] by simp_all
  have f: "filter c_free c2 = map freeCounter (outputs o')"
    by (simp add: r2 filter_map comp_def freeCounter_def summedCounter_def zeroCounter_def)
  show "ds = map (extentOf o' operands) (outputs o')"
    by (simp add: r3(2) f comp_def freeCounter_def)
  show "\<forall>x\<in>set (outputs o'). dimOf o' x operands = Inr (extentOf o' operands x)"
  proof
    fix x assume "x \<in> set (outputs o')"
    then have "freeCounter x \<in> set c2" by (simp add: r2)
    then show "dimOf o' x operands = Inr (extentOf o' operands x)"
      using r3(3) by (force simp: freeCounter_def)
  qed
  show "\<forall>x\<in>set ks. x \<notin> free o' \<longrightarrow> dimOf o' x operands = Inr (extentOf o' operands x)"
  proof (intro ballI impI)
    fix x assume "x \<in> set ks" "x \<notin> free o'"
    then have "summedCounter x \<in> set c2" by (simp add: r2)
    then show "dimOf o' x operands = Inr (extentOf o' operands x)"
      using r3(3) by (force simp: summedCounter_def)
  qed
  have "length (e_c e) = ?n" using executor_counters(1) [OF assms] .
  then show "\<exists>zs. e_c e = map (\<lambda>ec. ec\<lparr>c_dim := extentOf o' operands (c_r ec)\<rparr>)
                      (map freeCounter (outputs o') @ map summedCounter ?fs @ zs)
              \<and> (\<forall>z\<in>set zs. z = zeroCounter) \<and> length (e_c e) = ?n"
    by (intro exI [of _ "replicate (?n - ?lo - length ?fs) zeroCounter"]) (simp add: e r3(1) r2)
qed

subsection \<open>Letters that no operand binds\<close>

lemma matchOf_None: "(matchOf x inp = None) = (x \<notin> set inp)"
  by (induction inp) auto

lemma dimOfLoop_nomatch:
  "\<forall>inp\<in>set inps. x \<notin> set inp \<Longrightarrow> dimOfLoop x inps i operands d = Inr d"
  by (induction inps arbitrary: i) (simp_all add: matchOf_None [THEN iffD2])

lemma foldl_mult_zero_start: "foldl (\<lambda>total d. total * d) 0 ds = (0::nat)"
  by (induction ds) simp_all

lemma foldl_mult_zero: "0 \<in> set ds \<Longrightarrow> foldl (\<lambda>total d. total * d) a ds = (0::nat)"
  by (induction ds arbitrary: a) (auto simp: foldl_mult_zero_start)

lemma body_empty_out: "\<exists>err. body o' operands e [] = Inl err"
  by (cases "operandLoop o' e operands 0 1") (simp_all add: body_def)


lemma parse_i_to_j:
  "parseEinsum ''i->j'' =
     Inr \<lparr>seq = ''i->j'', all = {CHR ''i'', CHR ''j''}, free = {CHR ''j''},
          inputs = [''i''], outputs = ''j''\<rparr>"
  by (auto simp: parseEinsum_def emptyOps_def parseRune_def last_rune_def isSpace_def isLetter_def)



subsection \<open>What dimension resolution compares\<close>

text \<open>
  When \<^verbatim>\<open>dimOf\<close> succeeds, the extent bound at the first occurrence of the letter in
  each operand is the resolved extent, or is 0 (which \<^verbatim>\<open>dimOf\<close> takes for "unset").
\<close>

lemma dimOfLoop_agree:
  "dimOfLoop x inps i operands d = Inr res \<Longrightarrow>
   (d \<noteq> 0 \<longrightarrow> res = d)
   \<and> (\<forall>j<length inps. \<forall>m. matchOf x (inps ! j) = Some m \<longrightarrow>
         extentAt operands (i + j) m = Inr res \<or> extentAt operands (i + j) m = Inr 0)"
proof (induction inps arbitrary: i d)
  case Nil
  then show ?case by simp
next
  case (Cons inp rest)
  show ?case
  proof (cases "matchOf x inp")
    case None
    then have r: "dimOfLoop x rest (i + 1) operands d = Inr res" using Cons.prems by simp
    note ih = Cons.IH [OF r]
    show ?thesis
    proof (intro conjI allI impI)
      assume "d \<noteq> 0" then show "res = d" using ih by simp
    next
      fix j m assume j: "j < length (inp # rest)" and m: "matchOf x ((inp # rest) ! j) = Some m"
      then obtain j' where "j = Suc j'" using None by (cases j) auto
      then show "extentAt operands (i + j) m = Inr res \<or> extentAt operands (i + j) m = Inr 0"
        using ih j m by simp
    qed
  next
    case (Some m0)
    then obtain n where n: "extentAt operands i m0 = Inr n"
      using Cons.prems by (auto split: sum.splits)
    show ?thesis
    proof (cases "d = 0")
      case True
      then have r: "dimOfLoop x rest (i + 1) operands n = Inr res"
        using Cons.prems Some n by simp
      note ih = Cons.IH [OF r]
      show ?thesis
      proof (intro conjI allI impI)
        assume "d \<noteq> 0" then show "res = d" using True by simp
      next
        fix j m assume j: "j < length (inp # rest)" and m: "matchOf x ((inp # rest) ! j) = Some m"
        show "extentAt operands (i + j) m = Inr res \<or> extentAt operands (i + j) m = Inr 0"
        proof (cases j)
          case 0
          then show ?thesis using m Some n ih by (cases "n = 0") auto
        next
          case (Suc j')
          then show ?thesis using ih j m by simp
        qed
      qed
    next
      case False
      then have dn: "d = n" and r: "dimOfLoop x rest (i + 1) operands d = Inr res"
        using Cons.prems Some n by (auto split: if_splits)
      note ih = Cons.IH [OF r]
      have rd: "res = d" using ih False by simp
      show ?thesis
      proof (intro conjI allI impI)
        show "res = d" by (rule rd)
      next
        fix j m assume j: "j < length (inp # rest)" and m: "matchOf x ((inp # rest) ! j) = Some m"
        show "extentAt operands (i + j) m = Inr res \<or> extentAt operands (i + j) m = Inr 0"
        proof (cases j)
          case 0
          then show ?thesis using m Some n dn rd by simp
        next
          case (Suc j')
          then show ?thesis using ih j m by simp
        qed
      qed
    qed
  qed
qed

lemma dimOf_first_occurrences_agree:
  assumes "dimOf o' x operands = Inr res" and "j < length (inputs o')"
    and "matchOf x (inputs o' ! j) = Some m"
  shows "extentAt operands j m = Inr res \<or> extentAt operands j m = Inr 0"
  using dimOfLoop_agree [OF assms(1) [unfolded dimOf_def]] assms(2,3) by auto

subsection \<open>A letter repeated within one operand\<close>

text \<open>
  Claim C4 says that the extents bound at all occurrences of a letter must agree, also
  within one operand (\<^verbatim>\<open>ii\<close>). The inner loop of \<^verbatim>\<open>dimOf\<close> stops at the first
  occurrence: on a 2x3 matrix the subscript \<^verbatim>\<open>ii->i\<close> resolves \<open>i\<close> to the row count 2
  and the column count 3 is never compared; the call returns a result.
\<close>

theorem diagonal_mismatch_silent:
  "dimOf \<lparr>seq = ''ii->i'', all = {CHR ''i''}, free = {CHR ''i''}, inputs = [''ii''], outputs = ''i''\<rparr>
      CHR ''i'' [NewDense 2 3 [1, 2, 3, 4, 5, 6 :: real]] = Inr 2
   \<and> Einsum ''ii->i'' [NewDense 2 3 [1, 2, 3, 4, 5, 6 :: real]] ''i'' = Some (Inr ([2], [1, 5]))"
  by code_simp

subsection \<open>The odometer enumerates \<open>product_lists\<close>\<close>

lemma nth_concat_uniform:
  "\<forall>xs\<in>set xss. length xs = M \<Longrightarrow> k < length xss * M \<Longrightarrow>
   concat xss ! k = xss ! (k div M) ! (k mod M)"
proof (induction xss arbitrary: k)
  case Nil
  then show ?case by simp
next
  case (Cons xs xss)
  have M: "0 < M" using Cons.prems(2) by (cases M) auto
  have len: "length xs = M" using Cons.prems(1) by simp
  show ?case
  proof (cases "k < M")
    case True
    then show ?thesis by (simp add: nth_append len)
  next
    case False
    then have k: "k = (k - M) + M" by simp
    have lt: "k - M < length xss * M" using Cons.prems(2) False by simp
    have d: "k div M = Suc ((k - M) div M)" using M k by (metis div_add_self2 Suc_eq_plus1 less_numeral_extra(3))
    have m: "k mod M = (k - M) mod M" using k by (metis mod_add_self2)
    have "concat (xs # xss) ! k = concat xss ! (k - M)"
      using False by (simp add: nth_append len)
    also have "\<dots> = xss ! ((k - M) div M) ! ((k - M) mod M)"
      using Cons.prems(1) lt by (intro Cons.IH) simp_all
    finally show ?thesis by (simp add: d m)
  qed
qed

lemma length_product_upt:
  "length (product_lists (map (\<lambda>d. [0..<d]) ds)) = prod_list ds"
  by (induction ds) (simp_all add: length_concat comp_def sum_list_triv)

lemma mrv_append:
  "length ns = length ds \<Longrightarrow> mrv (ds @ ds') (ns @ ns') = mrv ds ns + prod_list ds * mrv ds' ns'"
proof (induction ds arbitrary: ns)
  case Nil
  then show ?case by simp
next
  case (Cons d ds)
  then obtain n ns1 where ns: "ns = n # ns1" "length ns1 = length ds" by (cases ns) auto
  show ?case using Cons.IH [OF ns(2)] by (simp add: ns algebra_simps)
qed

lemma product_upt_nth:
  "k < prod_list ds \<Longrightarrow>
   mrv (rev ds) (rev (product_lists (map (\<lambda>d. [0..<d]) ds) ! k)) = k"
proof (induction ds arbitrary: k)
  case Nil
  then show ?case by simp
next
  case (Cons d ds)
  let ?P = "product_lists (map (\<lambda>d. [0..<d]) ds)"
  let ?M = "prod_list ds"
  let ?xss = "map (\<lambda>x. map ((#) x) ?P) [0..<d]"
  have M: "0 < ?M" using Cons.prems by (cases ?M) auto
  have k: "k < d * ?M" using Cons.prems by simp
  have q: "k div ?M < d" using k M by (simp add: less_mult_imp_div_less mult.commute)
  have r: "k mod ?M < ?M" using M by simp
  have "concat ?xss ! k = ?xss ! (k div ?M) ! (k mod ?M)"
    using k by (intro nth_concat_uniform) (auto simp: length_product_upt)
  also have "\<dots> = (k div ?M) # (?P ! (k mod ?M))"
    using q r by (simp add: length_product_upt)
  finally have nth: "product_lists (map (\<lambda>d. [0..<d]) (d # ds)) ! k = (k div ?M) # (?P ! (k mod ?M))"
    by simp
  have "?P ! (k mod ?M) \<in> set ?P" using r by (simp add: length_product_upt)
  then have len: "length (rev (?P ! (k mod ?M))) = length (rev ds)"
    using in_set_product_lists_length by fastforce
  have "mrv (rev ds @ [d]) (rev (?P ! (k mod ?M)) @ [k div ?M])
        = mrv (rev ds) (rev (?P ! (k mod ?M))) + prod_list (rev ds) * mrv [d] [k div ?M]"
    using len by (rule mrv_append)
  also have "\<dots> = k mod ?M + ?M * (k div ?M)"
    using Cons.IH [OF r] by simp
  also have "\<dots> = k" by simp
  finally show ?case unfolding nth by simp
qed

lemma product_upt_valid:
  assumes "k < prod_list ds"
  shows "list_all2 (<) (product_lists (map (\<lambda>d. [0..<d]) ds) ! k) ds"
proof -
  let ?P = "product_lists (map (\<lambda>d. [0..<d]) ds)"
  have "?P ! k \<in> set ?P" using assms by (simp add: length_product_upt)
  then have "list_all2 (\<lambda>x ys. x \<in> set ys) (?P ! k) (map (\<lambda>d. [0..<d]) ds)"
    by (simp add: product_lists_set)
  then show ?thesis by (simp add: list_all2_map2)
qed

lemma visited_product_lists:
  assumes "cs \<noteq> []" and "\<forall>x\<in>set cs. c_v x = 0 \<and> 1 \<le> c_dim x"
  shows "map (visited cs) [0..<prod_list (map c_dim cs)]
         = product_lists (map (\<lambda>d. [0..<d]) (map c_dim cs))"
proof (rule nth_equalityI)
  show "length (map (visited cs) [0..<prod_list (map c_dim cs)])
        = length (product_lists (map (\<lambda>d. [0..<d]) (map c_dim cs)))"
    by (simp only: length_product_upt length_map length_upt)
next
  fix k assume "k < length (map (visited cs) [0..<prod_list (map c_dim cs)])"
  then have k: "k < prod_list (map c_dim cs)" by simp
  let ?p = "product_lists (map (\<lambda>d. [0..<d]) (map c_dim cs)) ! k"
  have a: "list_all2 (<) (rev ?p) (rev (map c_dim cs))"
    using product_upt_valid [OF k] by simp
  have "rev (visited cs k) = rev ?p"
    using visited_facts(3) [OF assms k] product_upt_nth [OF k]
    by (intro mrv_inj [OF visited_facts(2) [OF assms k] a]) simp
  then show "map (visited cs) [0..<prod_list (map c_dim cs)] ! k = ?p"
    using k by simp
qed

subsection \<open>The drive loop as a fold over the visited states\<close>

lemma steps_increment: "steps k (increment e) = steps (Suc k) e"
  by (simp add: steps_def funpow_swap1)

lemma drive_unroll:
  "\<forall>k<n. \<not> e_done (steps k e) \<Longrightarrow> e_done (steps n e) \<Longrightarrow>
   drive o' operands e out = Some (accumulate o' operands (map (\<lambda>k. steps k e) [0..<n]) out)"
proof (induction n arbitrary: e out)
  case 0
  then show ?case by (subst drive.simps) simp
next
  case (Suc n)
  have nd: "\<not> e_done e" using Suc.prems(1) [rule_format, of 0] by simp
  have l: "map (\<lambda>k. steps k e) [0..<Suc n] = e # map (\<lambda>k. steps k (increment e)) [0..<n]"
    by (simp only: upt_conv_Cons [of 0 "Suc n"] map_Suc_upt [symmetric] steps_increment)
       (simp add: comp_def)
  show ?case
  proof (cases "body o' operands e out")
    case (Inl err)
    then show ?thesis using nd unfolding l by (subst drive.simps) simp
  next
    case (Inr out')
    have "drive o' operands (increment e) out'
          = Some (accumulate o' operands (map (\<lambda>k. steps k (increment e)) [0..<n]) out')"
    proof (rule Suc.IH)
      show "\<forall>k<n. \<not> e_done (steps k (increment e))"
        using Suc.prems(1) by (simp add: steps_increment del: steps_Suc)
      show "e_done (steps n (increment e))"
        using Suc.prems(2) by (simp add: steps_increment del: steps_Suc)
    qed
    then show ?thesis using nd Inr unfolding l by (subst drive.simps) simp
  qed
qed

lemma outputIdxLoop_nofree:
  "\<forall>ec\<in>set cs. \<not> c_free ec \<Longrightarrow> outputIdxLoop cs idx jumpSize = idx"
  by (induction cs arbitrary: idx jumpSize) simp_all

lemma body_scalar:
  assumes "\<forall>ec\<in>set (e_c e). \<not> c_free ec"
  shows "body o' operands e [a] =
     (case operandLoop o' e operands 0 1 of Inl err \<Rightarrow> Inl err | Inr cur \<Rightarrow> Inr [a + cur])"
proof -
  have "outputIdx e = 0" unfolding outputIdx_def using assms by (intro outputIdxLoop_nofree) simp
  then show ?thesis by (simp add: body_def split: sum.splits)
qed

lemma indexesOf_value: "indexesOf e inp = Inr idx \<Longrightarrow> idx = map (envOf e) inp"
proof (induction inp arbitrary: idx)
  case Nil
  then show ?case by simp
next
  case (Cons x inp)
  then show ?case by (auto simp: envOf_def split: sum.splits)
qed

lemma operandAt_value: "operandAt m idx = Inr a \<Longrightarrow> a = elemAt m idx"
  by (auto simp: operandAt_def elemAt_def At_def split: if_splits)

lemma operandLoop_value:
  "operandLoop o' e ms i cur = Inr a \<Longrightarrow>
   a = foldl (\<lambda>cur (m, inp). cur * elemAt m (map (envOf e) inp)) cur (zip ms (drop i (inputs o')))"
proof (induction ms arbitrary: i cur)
  case Nil
  then show ?case by simp
next
  case (Cons m ms)
  have i: "i < length (inputs o')" using Cons.prems by (auto split: if_splits)
  obtain idx where idx: "indexesOf e (inputs o' ! i) = Inr idx"
    using Cons.prems i by (auto split: sum.splits)
  obtain x where x: "operandAt m idx = Inr x"
    using Cons.prems i idx by (auto split: sum.splits)
  have r: "operandLoop o' e ms (i + 1) (cur * x) = Inr a"
    using Cons.prems i idx x by simp
  have d: "drop i (inputs o') = inputs o' ! i # drop (Suc i) (inputs o')"
    using i by (simp add: Cons_nth_drop_Suc)
  show ?case
    using Cons.IH [OF r] indexesOf_value [OF idx] operandAt_value [OF x] by (simp add: d)
qed

lemma accumulate_scalar:
  "\<forall>e\<in>set es. \<forall>ec\<in>set (e_c e). \<not> c_free ec \<Longrightarrow> accumulate o' operands es [a] = Inr out \<Longrightarrow>
   out = [foldl (\<lambda>acc e. acc + termAt o' operands (envOf e)) a es]"
proof (induction es arbitrary: a)
  case Nil
  then show ?case by simp
next
  case (Cons e es)
  have b: "body o' operands e [a] =
     (case operandLoop o' e operands 0 1 of Inl err \<Rightarrow> Inl err | Inr cur \<Rightarrow> Inr [a + cur])"
    using Cons.prems(1) by (intro body_scalar) simp
  obtain cur where cur: "operandLoop o' e operands 0 1 = Inr cur"
    using Cons.prems(2) b by (auto split: sum.splits)
  have t: "cur = termAt o' operands (envOf e)"
    using operandLoop_value [OF cur] by (simp add: termAt_def)
  have "accumulate o' operands es [a + cur] = Inr out"
    using Cons.prems(2) b cur by simp
  then have "out = [foldl (\<lambda>acc e. acc + termAt o' operands (envOf e)) (a + cur) es]"
    using Cons.prems(1) by (intro Cons.IH) simp_all
  then show ?case by (simp add: t)
qed

lemma envOf_valuation: "envOf e = valuation (map c_r (e_c e)) (map c_v (e_c e))"
proof
  fix x
  have "(case counterValLoop cs x of Inl err \<Rightarrow> 0 | Inr n \<Rightarrow> n)
        = (case map_of (zip (map c_r cs) (map c_v cs)) x of None \<Rightarrow> 0 | Some n \<Rightarrow> n)" for cs
    by (induction cs) simp_all
  then show "envOf e x = valuation (map c_r (e_c e)) (map c_v (e_c e)) x"
    by (simp add: envOf_def valuation_def counterValFor_def)
qed

subsection \<open>An extent of zero makes the first turn fail\<close>

lemma dimOfLoop_zero:
  "dimOfLoop x inps i operands d = Inr 0 \<Longrightarrow>
   d = 0 \<and> (\<forall>j<length inps. \<forall>m. matchOf x (inps ! j) = Some m \<longrightarrow> extentAt operands (i + j) m = Inr 0)"
proof (induction inps arbitrary: i d)
  case Nil
  then show ?case by simp
next
  case (Cons inp rest)
  show ?case
  proof (cases "matchOf x inp")
    case None
    then have r: "dimOfLoop x rest (i + 1) operands d = Inr 0" using Cons.prems by simp
    have ih: "d = 0" "\<forall>j<length rest. \<forall>m. matchOf x (rest ! j) = Some m
                 \<longrightarrow> extentAt operands (i + 1 + j) m = Inr 0"
      using Cons.IH [OF r] by simp_all
    show ?thesis
    proof (intro conjI allI impI)
      show "d = 0" by (rule ih(1))
    next
      fix j m assume j: "j < length (inp # rest)" and m: "matchOf x ((inp # rest) ! j) = Some m"
      then obtain j' where "j = Suc j'" using None by (cases j) auto
      then show "extentAt operands (i + j) m = Inr 0" using ih(2) j m by simp
    qed
  next
    case (Some m0)
    then obtain n where n: "extentAt operands i m0 = Inr n"
      using Cons.prems by (auto split: sum.splits)
    have d0: "d = 0"
    proof (rule ccontr)
      assume d: "d \<noteq> 0"
      then have "d = n" and "dimOfLoop x rest (i + 1) operands d = Inr 0"
        using Cons.prems Some n by (auto split: if_splits)
      then show False using Cons.IH d by blast
    qed
    have r: "dimOfLoop x rest (i + 1) operands n = Inr 0"
      using Cons.prems Some n d0 by simp
    have ih: "n = 0" "\<forall>j<length rest. \<forall>m. matchOf x (rest ! j) = Some m
                 \<longrightarrow> extentAt operands (i + 1 + j) m = Inr 0"
      using Cons.IH [OF r] by simp_all
    show ?thesis
    proof (intro conjI allI impI)
      show "d = 0" by (rule d0)
    next
      fix j m assume j: "j < length (inp # rest)" and m: "matchOf x ((inp # rest) ! j) = Some m"
      show "extentAt operands (i + j) m = Inr 0"
      proof (cases j)
        case 0
        then show ?thesis using m Some n ih(1) by simp
      next
        case (Suc j')
        then show ?thesis using ih(2) j m by simp
      qed
    qed
  qed
qed

lemma operandLoop_fails:
  "j < length ms \<Longrightarrow>
   (\<And>idx. i + j < length (inputs o') \<Longrightarrow> indexesOf e (inputs o' ! (i + j)) = Inr idx \<Longrightarrow>
      \<exists>err. operandAt (ms ! j) idx = Inl err) \<Longrightarrow>
   \<exists>err. operandLoop o' e ms i cur = Inl err"
proof (induction ms arbitrary: i j cur)
  case Nil
  then show ?case by simp
next
  case (Cons m ms)
  show ?case
  proof (cases "i < length (inputs o')")
    case False
    then show ?thesis by simp
  next
    case i: True
    show ?thesis
    proof (cases "indexesOf e (inputs o' ! i)")
      case (Inl err)
      then show ?thesis using i by simp
    next
      case (Inr idx)
      show ?thesis
      proof (cases j)
        case 0
        then obtain err where "operandAt m idx = Inl err"
          using Cons.prems(2) [of idx] i Inr by auto
        then show ?thesis using i Inr by simp
      next
        case (Suc j')
        show ?thesis
        proof (cases "operandAt m idx")
          case (Inl err)
          then show ?thesis using i Inr by simp
        next
          case a: (Inr a)
          have "\<exists>err. operandLoop o' e ms (i + 1) (cur * a) = Inl err"
          proof (rule Cons.IH [of j'])
            show "j' < length ms" using Cons.prems(1) Suc by simp
          next
            fix idx' assume "i + 1 + j' < length (inputs o')"
              "indexesOf e (inputs o' ! (i + 1 + j')) = Inr idx'"
            then show "\<exists>err. operandAt (ms ! j') idx' = Inl err"
              using Cons.prems(2) [of idx'] Suc by simp
          qed
          then show ?thesis using i Inr a by simp
        qed
      qed
    qed
  qed
qed

lemma envOf_zero: "\<forall>ec\<in>set (e_c e). c_v ec = 0 \<Longrightarrow> envOf e x = 0"
proof -
  assume z: "\<forall>ec\<in>set (e_c e). c_v ec = 0"
  have "\<forall>ec\<in>set cs. c_v ec = 0 \<Longrightarrow> (case counterValLoop cs x of Inl err \<Rightarrow> 0 | Inr n \<Rightarrow> n) = 0" for cs
    by (induction cs) simp_all
  then show ?thesis using z by (simp add: envOf_def counterValFor_def)
qed

lemma matchOf_Some_nonempty: "matchOf x inp = Some m \<Longrightarrow> inp \<noteq> []"
  by (cases inp) simp_all

lemma body_zero_extent_fails:
  assumes "\<forall>ec\<in>set (e_c e). c_v ec = 0" and "j < length (inputs o')"
    and "matchOf x (inputs o' ! j) = Some m" and "extentAt operands j m = Inr 0"
  shows "\<exists>err. body o' operands e out = Inl err"
proof -
  have j: "j < length operands"
    using assms(4) by (auto simp: extentAt_def split: if_splits)
  have z: "nrows (operands ! j) = 0 \<or> ncols (operands ! j) = 0"
    using assms(4) by (auto simp: extentAt_def Dims_def split: if_splits)
  have "\<exists>err. operandLoop o' e operands 0 1 = Inl err"
  proof (rule operandLoop_fails [OF j])
    fix idx assume "indexesOf e (inputs o' ! (0 + j)) = Inr idx"
    then have idx: "idx = map (envOf e) (inputs o' ! j)"
      using indexesOf_value by simp
    have ne: "idx \<noteq> []" using idx matchOf_Some_nonempty [OF assms(3)] by simp
    have "\<forall>n\<in>set idx. n = 0" using idx envOf_zero [OF assms(1)] by simp
    then have "idx ! 0 = 0" "2 \<le> length idx \<longrightarrow> idx ! 1 = 0"
      using ne by (simp_all add: Suc_le_eq)
    then show "\<exists>err. operandAt (operands ! j) idx = Inl err"
      using z ne by (auto simp: operandAt_def At_def)
  qed
  then show ?thesis by (auto simp: body_def)
qed

subsection \<open>Subscripts without output\<close>

lemma Einsum_Inr_parts:
  assumes "parseEinsum s = Inr ops" and "Einsum s operands ks = Some (Inr (ds, out))"
  shows "\<exists>e. executor ops operands ks = Inr (e, ds)
           \<and> drive ops operands e (outputZeros ds) = Some (Inr out)"
proof (cases "executor ops operands ks")
  case (Inl err)
  then show ?thesis using assms by (simp add: Einsum_def)
next
  case (Inr p)
  obtain e ds' where p: "p = (e, ds')" by (cases p)
  show ?thesis
  proof (cases "drive ops operands e (outputZeros ds')")
    case None
    then show ?thesis using assms Inr p by (simp add: Einsum_def)
  next
    case (Some res)
    then show ?thesis using assms Inr p by (cases res) (auto simp: Einsum_def)
  qed
qed

lemma Einsum_scalar:
  assumes p: "parseEinsum s = Inr ops" and o: "outputs ops = []" and i: "inputs ops \<noteq> []"
    and r: "rangeOrder ops ks" and res: "Einsum s operands ks = Some (Inr (ds, out))"
  shows "ds = [] \<and> out = [fullSum ops operands ks]"
proof -
  let ?ext = "extentOf ops operands"
  let ?cs = "map (\<lambda>x. \<lparr>c_r = x, c_free = False, c_v = 0, c_dim = ?ext x\<rparr>) ks"
  have inv: "opsInv ops" using p by (rule parseEinsum_opsInv)
  have fr: "free ops = {}" and al: "all ops = \<Union>(set ` set (inputs ops))"
    using inv o by (simp_all add: opsInv_def)
  have nf: "filter (\<lambda>x. x \<notin> free ops) ks = ks" by (simp add: fr)
  have dk: "distinct ks" and sk: "set ks = all ops" using r by (simp_all add: rangeOrder_def)
  obtain e where ex: "executor ops operands ks = Inr (e, ds)"
    and dr: "drive ops operands e (outputZeros ds) = Some (Inr out)"
    using Einsum_Inr_parts [OF p res] by blast
  have ds: "ds = []" using executor_result(2) [OF ex] o by simp
  obtain zs where zs: "e_c e = map (\<lambda>ec. ec\<lparr>c_dim := ?ext (c_r ec)\<rparr>)
                      (map freeCounter (outputs ops) @ map summedCounter ks @ zs)"
    and len: "length (e_c e) = card (all ops)"
    using executor_result(1) [OF ex] nf by auto
  have "card (all ops) = length ks" using dk sk by (metis distinct_card)
  then have "zs = []" using zs len o by simp
  then have ec: "e_c e = ?cs" using zs o by (simp add: summedCounter_def comp_def)
  have e: "e = zeroState ?cs"
    using ec executor_counters(3) [OF ex] by (cases e) (simp add: zeroState_def)
  have nd: "\<not> e_done e" using executor_counters(3) [OF ex] .
  have zero: "\<forall>ec\<in>set (e_c e). c_v ec = 0" using executor_counters(2) [OF ex] .
  have ne: "?cs \<noteq> []"
  proof -
    obtain inp where "inp \<in> set (inputs ops)" using i by (cases "inputs ops") auto
    moreover have "inp \<noteq> []" using inv calculation by (auto simp: opsInv_def)
    ultimately have "all ops \<noteq> {}" using al by (cases inp) auto
    then show ?thesis using sk by auto
  qed
  have pos: "\<forall>x\<in>set ks. 1 \<le> ?ext x"
  proof (rule ccontr)
    assume "\<not> (\<forall>x\<in>set ks. 1 \<le> ?ext x)"
    then obtain x where x: "x \<in> set ks" "?ext x = 0" by auto
    have "dimOf ops x operands = Inr 0"
      using executor_result(4) [OF ex] x fr by auto
    then have dz: "\<forall>j<length (inputs ops). \<forall>m. matchOf x (inputs ops ! j) = Some m
                 \<longrightarrow> extentAt operands (0 + j) m = Inr 0"
      unfolding dimOf_def using dimOfLoop_zero by blast
    obtain inp where inp: "inp \<in> set (inputs ops)" "x \<in> set inp" using x(1) sk al by auto
    then obtain j where j: "j < length (inputs ops)" "inputs ops ! j = inp"
      by (auto simp: in_set_conv_nth)
    obtain m where m: "matchOf x (inputs ops ! j) = Some m"
      using inp(2) j(2) matchOf_None [of x inp] by (cases "matchOf x inp") auto
    have "extentAt operands j m = Inr 0" using dz j(1) m by auto
    then obtain err where "body ops operands e (outputZeros ds) = Inl err"
      using body_zero_extent_fails [OF zero j(1) m] by blast
    then have "drive ops operands e (outputZeros ds) = Some (Inl err)"
      using nd by (subst drive.simps) simp
    then show False using dr by simp
  qed
  have hyp: "\<forall>ec\<in>set ?cs. c_v ec = 0 \<and> 1 \<le> c_dim ec" using pos by simp
  let ?N = "prod_list (map c_dim ?cs)"
  have a: "\<forall>k<?N. \<not> e_done (steps k e)"
    using visited_facts(1) [OF ne hyp] by (simp add: e)
  have b: "e_done (steps ?N e)"
    using steps_done_zero [OF ne hyp] by (simp add: e)
  have oz: "outputZeros ds = [0::'a]" by (simp add: ds outputZeros_def)
  have acc: "accumulate ops operands (map (\<lambda>k. steps k e) [0..<?N]) [0] = Inr out"
    using drive_unroll [OF a b, of ops operands "[0]"] dr by (simp add: oz)
  have nofree: "\<forall>e'\<in>set (map (\<lambda>k. steps k e) [0..<?N]). \<forall>ec\<in>set (e_c e'). \<not> c_free ec"
  proof (intro ballI)
    fix e' ec assume "e' \<in> set (map (\<lambda>k. steps k e) [0..<?N])" "ec \<in> set (e_c e')"
    then obtain k where k: "e' = steps k e" by auto
    have "map c_free (e_c e') = map c_free ?cs" by (simp add: k steps_keeps ec)
    then have "set (map c_free (e_c e')) \<subseteq> {False}" by (auto simp: comp_def)
    then show "\<not> c_free ec" using \<open>ec \<in> set (e_c e')\<close> by auto
  qed
  have env: "envOf (steps k e) = valuation ks (visited ?cs k)" for k
  proof -
    have "map c_r (e_c (steps k e)) = ks" by (simp add: steps_keeps ec comp_def)
    then show ?thesis by (simp add: envOf_valuation visited_def e [symmetric])
  qed
  have "out = [foldl (\<lambda>acc e'. acc + termAt ops operands (envOf e')) 0 (map (\<lambda>k. steps k e) [0..<?N])]"
    using accumulate_scalar [OF nofree acc] .
  also have "foldl (\<lambda>acc e'. acc + termAt ops operands (envOf e')) 0 (map (\<lambda>k. steps k e) [0..<?N])
      = foldl (\<lambda>acc ns. acc + termAt ops operands (valuation ks ns)) 0 (map (visited ?cs) [0..<?N])"
    by (simp add: foldl_map env)
  also have "map (visited ?cs) [0..<?N] = product_lists (map (\<lambda>d. [0..<d]) (map c_dim ?cs))"
    using visited_product_lists [OF ne hyp] .
  also have "map (\<lambda>d. [0..<d]) (map c_dim ?cs) = map (\<lambda>x. [0..<?ext x]) ks"
    by (simp add: comp_def)
  finally have "out = [fullSum ops operands ks]" by (simp add: fullSum_def)
  then show ?thesis using ds by simp
qed

lemma parseLoop_no_marker:
  "\<forall>x\<in>set s. isLetter x \<or> isSpace x \<or> x = CHR '','' \<or> x = CHR ''-'' \<Longrightarrow> m \<noteq> opsParseModeOutput \<Longrightarrow>
   (m = opsParseModeGrowInput \<longrightarrow> inputs o' \<noteq> []) \<Longrightarrow>
   \<exists>ops. parseLoop s o' m = Inr ops \<and> outputs ops = outputs o' \<and> free ops = free o'
         \<and> ((\<exists>x\<in>set s. isLetter x) \<or> inputs o' \<noteq> [] \<longrightarrow> inputs ops \<noteq> [])"
proof (induction s arbitrary: o' m)
  case Nil
  then show ?case by simp
next
  case (Cons x s)
  have rest: "\<forall>x\<in>set s. isLetter x \<or> isSpace x \<or> x = CHR '','' \<or> x = CHR ''-''"
    using Cons.prems(1) by simp
  consider "x = CHR '',''" | "isSpace x" | "isLetter x" | "x = CHR ''-''"
    using Cons.prems(1) by auto
  then show ?case
  proof cases
    case 4
    let ?o = "o'\<lparr>seq := seq o' @ ''-''\<rparr>"
    have nl: "\<not> isLetter x" using 4 by (simp add: isLetter_def)
    obtain ops where "parseLoop s ?o m = Inr ops" "outputs ops = outputs ?o"
      "free ops = free ?o" "(\<exists>x\<in>set s. isLetter x) \<or> inputs ?o \<noteq> [] \<longrightarrow> inputs ops \<noteq> []"
      using Cons.IH [OF rest Cons.prems(2), of ?o] Cons.prems(3) by auto
    then show ?thesis using 4 nl by (simp add: parseRune_dash)
  next
    case 1
    let ?o = "o'\<lparr>seq := seq o' @ '',''\<rparr>"
    have nl: "\<not> isLetter x" using 1 by (simp add: isLetter_def)
    obtain ops where "parseLoop s ?o opsParseModeNewInput = Inr ops" "outputs ops = outputs ?o"
      "free ops = free ?o" "(\<exists>x\<in>set s. isLetter x) \<or> inputs ?o \<noteq> [] \<longrightarrow> inputs ops \<noteq> []"
      using Cons.IH [OF rest, of opsParseModeNewInput ?o] by auto
    then show ?thesis using 1 nl by (simp add: parseRune_comma)
  next
    case 2
    have nl: "\<not> isLetter x" using 2 letter_not_special [of x] by auto
    obtain ops where "parseLoop s o' m = Inr ops" "outputs ops = outputs o'"
      "free ops = free o'" "(\<exists>x\<in>set s. isLetter x) \<or> inputs o' \<noteq> [] \<longrightarrow> inputs ops \<noteq> []"
      using Cons.IH [OF rest Cons.prems(2,3)] by auto
    then show ?thesis using 2 nl by (simp add: parseRune_space)
  next
    case 3
    note sp = letter_not_special [OF 3]
    have pr: "parseRune o' m x =
       (case m of
           opsParseModeNewInput \<Rightarrow>
             Inr (o'\<lparr>all := insert x (all o'), inputs := inputs o' @ [[x]], seq := seq o' @ [x]\<rparr>,
                  opsParseModeGrowInput)
         | opsParseModeGrowInput \<Rightarrow>
             (if inputs o' = [] then Inl IndexOutOfRange
              else Inr (o'\<lparr>all := insert x (all o'),
                            inputs := butlast (inputs o') @ [last (inputs o') @ [x]],
                            seq := seq o' @ [x]\<rparr>, opsParseModeGrowInput))
         | opsParseModeOutput \<Rightarrow>
             Inr (o'\<lparr>all := insert x (all o'), free := insert x (free o'),
                      outputs := outputs o' @ [x], seq := seq o' @ [x]\<rparr>, opsParseModeOutput))"
      using sp 3 by (subst parseRune_other) simp_all
    show ?thesis
    proof (cases m)
      case opsParseModeNewInput
      let ?o = "o'\<lparr>all := insert x (all o'), inputs := inputs o' @ [[x]], seq := seq o' @ [x]\<rparr>"
      obtain ops where "parseLoop s ?o opsParseModeGrowInput = Inr ops" "outputs ops = outputs ?o"
        "free ops = free ?o" "(\<exists>x\<in>set s. isLetter x) \<or> inputs ?o \<noteq> [] \<longrightarrow> inputs ops \<noteq> []"
        using Cons.IH [OF rest, of opsParseModeGrowInput ?o] by auto
      then show ?thesis using pr opsParseModeNewInput by simp
    next
      case opsParseModeGrowInput
      then have ne: "inputs o' \<noteq> []" using Cons.prems(3) by simp
      let ?o = "o'\<lparr>all := insert x (all o'),
                   inputs := butlast (inputs o') @ [last (inputs o') @ [x]], seq := seq o' @ [x]\<rparr>"
      obtain ops where "parseLoop s ?o opsParseModeGrowInput = Inr ops" "outputs ops = outputs ?o"
        "free ops = free ?o" "(\<exists>x\<in>set s. isLetter x) \<or> inputs ?o \<noteq> [] \<longrightarrow> inputs ops \<noteq> []"
        using Cons.IH [OF rest, of opsParseModeGrowInput ?o] by auto
      then show ?thesis using pr opsParseModeGrowInput ne by simp
    next
      case opsParseModeOutput
      then show ?thesis using Cons.prems(2) by simp
    qed
  qed
qed


lemma parse_ij:
  "parseEinsum ''ij'' =
     Inr \<lparr>seq = ''ij'', all = {CHR ''i'', CHR ''j''}, free = {}, inputs = [''ij''], outputs = []\<rparr>"
  by (auto simp: parseEinsum_def emptyOps_def parseRune_def isSpace_def isLetter_def)

lemma Einsum_ij:
  "Einsum ''ij'' [NewDense 2 2 [1, 2, 3, 4 :: real]] ''ji'' = Some (Inr ([], [10]))"
  by code_simp


subsection \<open>Two calls on the same input\<close>

lemma distinct_same_set_small:
  assumes "distinct xs" and "distinct ys" and "set xs = set ys" and "card (set xs) \<le> 1"
  shows "xs = ys"
proof -
  have lx: "length xs \<le> 1" using assms(1,4) by (simp add: distinct_card)
  have ly: "length ys \<le> 1" using assms(2,3,4) by (simp add: distinct_card)
  show ?thesis
  proof (cases xs)
    case Nil
    then show ?thesis using assms(3) by simp
  next
    case (Cons x xs')
    then have xs: "xs = [x]" using lx by simp
    then obtain y where "ys = [y]" using assms(3) ly by (cases ys) auto
    then show ?thesis using xs assms(3) by simp
  qed
qed

text \<open>
  Claim C8, as far as it holds. Two successful calls with the same subscript and the
  same operands return the same shape. They return the same values whenever the run
  time enumerated the summation letters in the same order in both calls, which is
  certain when the subscript has at most one summation letter.
\<close>

theorem Einsum_repeatable:
  assumes "parseEinsum s = Inr ops"
    and "Einsum s operands ks1 = Some (Inr (ds1, out1))"
    and "Einsum s operands ks2 = Some (Inr (ds2, out2))"
  shows "ds1 = ds2
     \<and> (filter (\<lambda>x. x \<notin> free ops) ks1 = filter (\<lambda>x. x \<notin> free ops) ks2 \<longrightarrow> out1 = out2)
     \<and> (rangeOrder ops ks1 \<and> rangeOrder ops ks2 \<and> card (all ops - free ops) \<le> 1 \<longrightarrow> out1 = out2)"
proof -
  obtain e1 where e1: "executor ops operands ks1 = Inr (e1, ds1)"
    using Einsum_Inr_parts [OF assms(1,2)] by blast
  obtain e2 where e2: "executor ops operands ks2 = Inr (e2, ds2)"
    using Einsum_Inr_parts [OF assms(1,3)] by blast
  have ds: "ds1 = ds2" using executor_result(2) [OF e1] executor_result(2) [OF e2] by simp
  have same: "out1 = out2"
    if "filter (\<lambda>x. x \<notin> free ops) ks1 = filter (\<lambda>x. x \<notin> free ops) ks2"
  proof -
    have "Einsum s operands ks1 = Einsum s operands ks2"
      using Einsum_filter [OF assms(1), of operands ks1] Einsum_filter [OF assms(1), of operands ks2] that
      by simp
    then show ?thesis using assms(2,3) by simp
  qed
  have "out1 = out2"
    if r: "rangeOrder ops ks1 \<and> rangeOrder ops ks2 \<and> card (all ops - free ops) \<le> 1"
  proof -
    let ?f1 = "filter (\<lambda>x. x \<notin> free ops) ks1" and ?f2 = "filter (\<lambda>x. x \<notin> free ops) ks2"
    have s1: "set ?f1 = all ops - free ops" and s2: "set ?f2 = all ops - free ops"
      using r by (auto simp: rangeOrder_def)
    have "?f1 = ?f2"
    proof (rule distinct_same_set_small)
      show "distinct ?f1" "distinct ?f2" using r by (simp_all add: rangeOrder_def)
      show "set ?f1 = set ?f2" using s1 s2 by simp
      show "card (set ?f1) \<le> 1" using r s1 by simp
    qed
    then show ?thesis by (rule same)
  qed
  then show ?thesis using ds same by blast
qed

lemma Einsum_ik_k1:
  "Einsum ''ik,k->i'' [NewDense 2 2 [1, 2, 3, 4 :: real], NewVecDense 2 [5, 6]] ''ik''
     = Some (Inr ([2], [17, 39]))"
  by code_simp

lemma Einsum_ik_k2:
  "Einsum ''ik,k->i'' [NewDense 2 2 [1, 2, 3, 4 :: real], NewVecDense 2 [5, 6]] ''ki''
     = Some (Inr ([2], [17, 39]))"
  by code_simp

lemma parse_ik_k:
  "parseEinsum ''ik,k->i'' =
     Inr \<lparr>seq = ''ik,k->i'', all = {CHR ''i'', CHR ''k''}, free = {CHR ''i''},
          inputs = [''ik'', ''k''], outputs = ''i''\<rparr>"
  by (auto simp: parseEinsum_def emptyOps_def parseRune_def last_rune_def isSpace_def isLetter_def)

theorem Einsum_repeatable_witness:
  "Einsum ''ik,k->i'' [NewDense 2 2 [1, 2, 3, 4 :: real], NewVecDense 2 [5, 6]] ''ik''
     = Some (Inr ([2], [17, 39]))
   \<and> Einsum ''ik,k->i'' [NewDense 2 2 [1, 2, 3, 4 :: real], NewVecDense 2 [5, 6]] ''ki''
     = Some (Inr ([2], [17, 39]))
   \<and> [2 :: nat] = [2] \<and> [17, 39 :: real] = [17, 39]"
  using Einsum_repeatable [OF parse_ik_k Einsum_ik_k1 Einsum_ik_k2] Einsum_ik_k1 Einsum_ik_k2
  by simp

lemma rangeOrder_ij:
  "rangeOrder \<lparr>seq = ''ij'', all = {CHR ''i'', CHR ''j''}, free = {}, inputs = [''ij''], outputs = []\<rparr> ''ij''"
  "rangeOrder \<lparr>seq = ''ij'', all = {CHR ''i'', CHR ''j''}, free = {}, inputs = [''ij''], outputs = []\<rparr> ''ji''"
  by (auto simp: rangeOrder_def)

lemma Einsum_f64_ij:
  "Einsum ''ij'' [NewDense 2 2 [F64 9007199254740992, F64 1, F64 (- 9007199254740992), F64 1]] ''ij''
        = Some (Inr ([], [F64 1]))"
  by code_simp

lemma Einsum_f64_ji:
  "Einsum ''ij'' [NewDense 2 2 [F64 9007199254740992, F64 1, F64 (- 9007199254740992), F64 1]] ''ji''
        = Some (Inr ([], [F64 2]))"
  by code_simp

text \<open>
  Against claim C8 as stated: the subscript \<^verbatim>\<open>ij\<close> sums over two letters. On the
  \<^verbatim>\<open>float64\<close> matrix \<open>[[2^53, 1], [-2^53, 1]]\<close> the call returns 1 when the letter map
  is enumerated as \<open>i, j\<close> (the sum \<open>2^53 + 1\<close> rounds to \<open>2^53\<close>) and 2 when it is
  enumerated as \<open>j, i\<close>.
\<close>

theorem Einsum_order_counterexample:
  "rangeOrder \<lparr>seq = ''ij'', all = {CHR ''i'', CHR ''j''}, free = {}, inputs = [''ij''], outputs = []\<rparr> ''ij''
   \<and> rangeOrder \<lparr>seq = ''ij'', all = {CHR ''i'', CHR ''j''}, free = {}, inputs = [''ij''], outputs = []\<rparr> ''ji''
   \<and> Einsum ''ij'' [NewDense 2 2 [F64 9007199254740992, F64 1, F64 (- 9007199254740992), F64 1]] ''ij''
        = Some (Inr ([], [F64 1]))
   \<and> Einsum ''ij'' [NewDense 2 2 [F64 9007199254740992, F64 1, F64 (- 9007199254740992), F64 1]] ''ji''
        = Some (Inr ([], [F64 2]))"
  using rangeOrder_ij Einsum_f64_ij Einsum_f64_ji by (intro conjI)

end
